theory Spec2Isabelle
  imports Complex_Main
begin

section \<open>The etalon model of \<open>PositiveEtalonModel.py\<close>\<close>

text \<open>
  The class \<open>PositiveEtalonModel\<close> evaluates
  \<open>f(x:p) = p\<^sub>0 / (1 + p\<^sub>1\<^sup>2 sin\<^sup>2(\<pi> p\<^sub>2 x + p\<^sub>3))\<close>, its derivative to \<open>x\<close> and its
  partials to the four parameters, on numpy arrays of float64.

  Numbers: the code computes in float64. The first embedding reads a float64 as the
  \<open>real\<close> number it holds, \<open>math.pi\<close> as \<open>\<pi>\<close>, and \<open>*\<close>, \<open>+\<close>, \<open>/\<close>, \<open>sin\<close> and
  \<open>cos\<close> as the exact operations: what it proves holds of the formulas in exact
  arithmetic, and of the order, shape and errors of the arrays. The second embedding,
  \<open>baseResult_f64\<close>, \<open>baseDerivative_f64\<close> and \<open>basePartial_f64\<close> below, computes in float64
  itself: every operation rounds to the nearest float64, overflows to an infinity, and
  follows the rules of IEEE 754 for infinities and NaN. A property of the numbers that
  the code returns is settled there.

  Arrays: a one-dimensional numpy array is a \<open>real list\<close>; a scalar times an array is a
  \<open>map\<close>, an array times an array of the same length a \<open>map2\<close>. \<open>params\<close> is read by
  \<open>params[i]\<close> only, and Python raises \<open>IndexError\<close> when it is too short.
\<close>

subsection \<open>Errors and objects\<close>

datatype error = IndexError | KeyError | ValueError | TypeError

text \<open>
  Units of \<open>astropy.units\<close>, as far as \<open>baseParameterUnit\<close> builds them: \<open>Unit("")\<close> is
  the dimensionless unit, \<open>units.si.rad\<close> the radian, \<open>Unit(u)\<close> of a unit is that unit,
  and \<open>u / v\<close> is kept as a formal quotient.
\<close>

datatype astropy_unit = Dimensionless | Radian | Named string | Per astropy_unit astropy_unit

definition Unit_str :: "string \<Rightarrow> astropy_unit" where
  "Unit_str s = (if s = [] then Dimensionless else Named s)"

definition Unit_of :: "astropy_unit \<Rightarrow> astropy_unit" where
  "Unit_of u = u"

definition si_rad :: astropy_unit where
  "si_rad = Radian"

text \<open>
  The attributes of \<open>self\<close> that the methods read. They belong to the base classes of
  BayesicFitting; the constructor passes 4 as the number of parameters.
\<close>

record model =
  npbase :: nat
  npmax :: nat
  xUnit :: astropy_unit
  yUnit :: astropy_unit

text \<open>
  A two-dimensional array with its shape, cells in row-major order. The shape is kept
  apart from the cells: an array of shape \<open>(0, K)\<close> has no row to read \<open>K\<close> from.
\<close>

record ndarray =
  nrows :: nat
  ncols :: nat
  cells :: "real list list"

text \<open>
  \<open>numpy.ndarray((n, k))\<close> allocates without initialising; \<open>junk i j\<close> is what the
  memory holds at row \<open>i\<close>, column \<open>j\<close>.
\<close>

definition numpy_ndarray :: "(nat \<Rightarrow> nat \<Rightarrow> real) \<Rightarrow> nat \<Rightarrow> nat \<Rightarrow> ndarray" where
  "numpy_ndarray junk n k =
     \<lparr>nrows = n, ncols = k, cells = map (\<lambda>i. map (junk i) [0..<k]) [0..<n]\<rparr>"

text \<open>\<open>a[:,k]\<close>, for \<open>k\<close> within the shape.\<close>

definition column :: "ndarray \<Rightarrow> nat \<Rightarrow> real list" where
  "column a k = map (\<lambda>row. row ! k) (cells a)"

text \<open>
  \<open>a[:,k] = v\<close>: \<open>IndexError\<close> when \<open>k\<close> is not a column of \<open>a\<close>, \<open>ValueError\<close> when
  \<open>v\<close> does not have one value per row.
\<close>

definition set_column :: "ndarray \<Rightarrow> nat \<Rightarrow> real list \<Rightarrow> error + ndarray" where
  "set_column a k v =
     (if \<not> k < ncols a then Inl IndexError
      else if length v \<noteq> nrows a then Inl ValueError
      else Inr (a\<lparr>cells := map2 (\<lambda>row y. row[k := y]) (cells a) v\<rparr>))"

text \<open>The shape agrees with the cells: \<open>nrows\<close> rows of \<open>ncols\<close> cells each.\<close>

definition wf_ndarray :: "ndarray \<Rightarrow> bool" where
  "wf_ndarray a =
     (length (cells a) = nrows a \<and> list_all (\<lambda>row. length row = ncols a) (cells a))"

subsection \<open>Value, derivative and partials over the reals\<close>

text \<open>
  \<^verbatim>\<open>
  def baseResult( self, xdata, params ):
      x = math.pi * xdata * params[2] + params[3]
      sx = numpy.sin( x )
      return params[0] / ( 1.0 + params[1] * params[1] * sx * sx )
  \<close>
\<close>

definition baseResult :: "real list \<Rightarrow> real list \<Rightarrow> error + real list" where
  "baseResult xdata params =
     (if length params < 4 then Inl IndexError
      else
        let x = map (\<lambda>v. pi * v * params ! 2 + params ! 3) xdata;
            sx = map sin x
        in Inr (map (\<lambda>s. params ! 0 / (1.0 + params ! 1 * params ! 1 * s * s)) sx))"

text \<open>
  \<^verbatim>\<open>
  def baseDerivative( self, xdata, params ):
      x = math.pi * xdata * params[2] + params[3]
      sx = numpy.sin( x )
      dd = 1 + params[1] * params[1] * sx * sx
      dd *= dd
      return - 2 * math.pi * params[0] * params[1] * params[1] * params[2] * sx * numpy.cos( x ) / dd
  \<close>
\<close>

definition baseDerivative :: "real list \<Rightarrow> real list \<Rightarrow> error + real list" where
  "baseDerivative xdata params =
     (if length params < 4 then Inl IndexError
      else
        let x = map (\<lambda>v. pi * v * params ! 2 + params ! 3) xdata;
            sx = map sin x;
            dd = map (\<lambda>s. 1 + params ! 1 * params ! 1 * s * s) sx;
            dd = map2 (*) dd dd
        in Inr (map2 (/)
                 (map2 (\<lambda>s c. - 2 * pi * params ! 0 * params ! 1 * params ! 1 * params ! 2 * s * c)
                    sx (map cos x))
                 dd))"

text \<open>
  The loop \<open>for k,kp in enumerate( parlist ): partial[:,k] = parts[kp]()\<close>. The
  dictionary \<open>parts\<close> has the keys 0 to 3; another key raises \<open>KeyError\<close>, before the
  assignment is tried.
\<close>

fun fill :: "(int \<rightharpoonup> real list) \<Rightarrow> nat \<Rightarrow> int list \<Rightarrow> ndarray \<Rightarrow> error + ndarray" where
  "fill parts k [] partial = Inr partial"
| "fill parts k (kp # rest) partial =
     (case parts kp of
        None \<Rightarrow> Inl KeyError
      | Some col \<Rightarrow>
          (case set_column partial k col of
             Inl e \<Rightarrow> Inl e
           | Inr partial' \<Rightarrow> fill parts (Suc k) rest partial'))"

text \<open>
  \<^verbatim>\<open>
  def basePartial( self, xdata, params, parlist=None ):
      np = self.npbase if parlist is None else len( parlist )
      partial = numpy.ndarray( ( Tools.length( xdata ), np ) )
      x = math.pi * xdata * params[2] + params[3]
      sx = numpy.sin( x )
      s2 = sx * sx
      dd = 1.0 / ( 1 + params[1] * params[1] * s2 )
      d2 = dd * dd
      p3 = - 2 * params[0] * params[1] * params[1] * sx * numpy.cos( x ) * d2
      parts = { 0 : ( lambda: dd ),
                1 : ( lambda: - 2 * params[0] * params[1] * s2 * d2 ),
                2 : ( lambda: math.pi * xdata * p3 ),
                3 : ( lambda: p3 ) }
      if parlist is None :
          parlist = range( self.npmax )
      for k,kp in enumerate( parlist ) :
          partial[:,k] = parts[kp]()
      return partial
  \<close>
  \<open>parts_of\<close> is the dictionary, each closure at its value.
\<close>

definition parts_of :: "real list \<Rightarrow> real list \<Rightarrow> int \<rightharpoonup> real list" where
  "parts_of xdata params =
     (let x = map (\<lambda>v. pi * v * params ! 2 + params ! 3) xdata;
          sx = map sin x;
          s2 = map2 (*) sx sx;
          dd = map (\<lambda>s. 1.0 / (1 + params ! 1 * params ! 1 * s)) s2;
          d2 = map2 (*) dd dd;
          p3 = map2 (*)
                 (map2 (\<lambda>s c. - 2 * params ! 0 * params ! 1 * params ! 1 * s * c) sx (map cos x))
                 d2
      in [0 \<mapsto> dd,
          1 \<mapsto> map2 (\<lambda>s d. - 2 * params ! 0 * params ! 1 * s * d) s2 d2,
          2 \<mapsto> map2 (\<lambda>v p. pi * v * p) xdata p3,
          3 \<mapsto> p3])"

definition basePartial ::
  "model \<Rightarrow> (nat \<Rightarrow> nat \<Rightarrow> real) \<Rightarrow> real list \<Rightarrow> real list \<Rightarrow> int list option \<Rightarrow> error + ndarray"
where
  "basePartial self junk xdata params parlist =
     (let np = (case parlist of None \<Rightarrow> npbase self | Some l \<Rightarrow> length l);
          partial = numpy_ndarray junk (length xdata) np
      in if length params < 4 then Inl IndexError
         else
           let parts = parts_of xdata params;
               parlist = (case parlist of None \<Rightarrow> map int [0..<npmax self] | Some l \<Rightarrow> l)
           in fill parts 0 parlist partial)"

text \<open>
  The function of the class's docstring,
  \<^verbatim>\<open>f( x:p ) = p_0 / ( 1.0 + p_1^2 * sin^2( &pi; p_2 x + p_3 ) )\<close>, at one sample.
\<close>

definition etalon :: "real list \<Rightarrow> real \<Rightarrow> real" where
  "etalon p x = p ! 0 / (1 + (p ! 1)\<^sup>2 * (sin (pi * x * p ! 2 + p ! 3))\<^sup>2)"

subsection \<open>Value, derivative and partials in float64\<close>

text \<open>
  The second embedding computes as the code does, in IEEE 754 binary64. A float64 is a
  finite number, an infinity or NaN. A finite float64 is a whole multiple \<open>m * 2\<^sup>e\<close> with
  \<open>|m| < 2\<^sup>5\<^sup>3\<close> and \<open>e \<ge> -1074\<close>, at most \<open>2\<^sup>1\<^sup>0\<^sup>2\<^sup>4 - 2\<^sup>9\<^sup>7\<^sup>1\<close> in size. Every operation
  rounds its exact result to the nearest such number, ties to the even multiple; a result
  from \<open>2\<^sup>1\<^sup>0\<^sup>2\<^sup>4 - 2\<^sup>9\<^sup>7\<^sup>0\<close> on in size is an infinity.

  \<open>two_pow e\<close> is \<open>2\<^sup>e\<close>; \<open>ulp_exp x\<close> is the exponent of the grid around \<open>x\<close>: 52 below
  the exponent of \<open>x\<close>, and \<open>-1074\<close> in the subnormal range.
\<close>

definition two_pow :: "int \<Rightarrow> real" where
  "two_pow e = 2 powr of_int e"

definition round_even :: "real \<Rightarrow> int" where
  "round_even q =
     (let f = \<lfloor>q\<rfloor>; r = q - of_int f
      in if r < 1/2 then f else if 1/2 < r then f + 1 else if even f then f else f + 1)"

definition ulp_exp :: "real \<Rightarrow> int" where
  "ulp_exp x = max (\<lfloor>log 2 \<bar>x\<bar>\<rfloor> - 52) (- 1074)"

text \<open>Rounding to the grid, before the range is looked at.\<close>

definition rnd :: "real \<Rightarrow> real" where
  "rnd x =
     (if x = 0 then 0
      else sgn x * (of_int (round_even (\<bar>x\<bar> / two_pow (ulp_exp x))) * two_pow (ulp_exp x)))"

definition representable :: "real \<Rightarrow> bool" where
  "representable x = (rnd x = x)"

definition max_float :: real where
  "max_float = 2 ^ 1024 - 2 ^ 971"

definition overflow_from :: real where
  "overflow_from = 2 ^ 1024 - 2 ^ 970"

text \<open>\<open>math.pi\<close>, the float64 nearest to \<open>\<pi>\<close>: \<open>0x1.921fb54442d18p+1\<close>.\<close>

definition math_pi :: real where
  "math_pi = 884279719003555 / 2 ^ 48"

text \<open>
  Infinities and NaN combine by the rules of IEEE 754 that numpy follows: \<open>inf * 0\<close>,
  \<open>inf - inf\<close>, \<open>inf / inf\<close>, \<open>0 / 0\<close> and \<open>sin(inf)\<close> are NaN, and NaN spreads. There is
  one zero, taken as \<open>+0\<close> where a sign is needed, and one NaN.
\<close>

datatype float64 = Fin real | PInf | NInf | NaN

definition fround :: "real \<Rightarrow> float64" where
  "fround r =
     (if overflow_from \<le> r then PInf else if r \<le> - overflow_from then NInf else Fin (rnd r))"

text \<open>\<open>numpy.isfinite\<close>, on the values that are float64 numbers.\<close>

fun isfinite :: "float64 \<Rightarrow> bool" where
  "isfinite (Fin r) = (representable r \<and> \<bar>r\<bar> \<le> max_float)"
| "isfinite PInf = False"
| "isfinite NInf = False"
| "isfinite NaN = False"

fun fneg :: "float64 \<Rightarrow> float64" where
  "fneg (Fin a) = Fin (- a)"
| "fneg PInf = NInf"
| "fneg NInf = PInf"
| "fneg NaN = NaN"

fun fmul :: "float64 \<Rightarrow> float64 \<Rightarrow> float64" where
  "fmul (Fin a) (Fin b) = fround (a * b)"
| "fmul (Fin a) PInf = (if a = 0 then NaN else if 0 < a then PInf else NInf)"
| "fmul (Fin a) NInf = (if a = 0 then NaN else if 0 < a then NInf else PInf)"
| "fmul PInf (Fin b) = (if b = 0 then NaN else if 0 < b then PInf else NInf)"
| "fmul NInf (Fin b) = (if b = 0 then NaN else if 0 < b then NInf else PInf)"
| "fmul PInf PInf = PInf"
| "fmul PInf NInf = NInf"
| "fmul NInf PInf = NInf"
| "fmul NInf NInf = PInf"
| "fmul NaN b = NaN"
| "fmul a NaN = NaN"

fun fadd :: "float64 \<Rightarrow> float64 \<Rightarrow> float64" where
  "fadd (Fin a) (Fin b) = fround (a + b)"
| "fadd (Fin a) PInf = PInf"
| "fadd (Fin a) NInf = NInf"
| "fadd PInf (Fin b) = PInf"
| "fadd NInf (Fin b) = NInf"
| "fadd PInf PInf = PInf"
| "fadd NInf NInf = NInf"
| "fadd PInf NInf = NaN"
| "fadd NInf PInf = NaN"
| "fadd NaN b = NaN"
| "fadd a NaN = NaN"

fun fdiv :: "float64 \<Rightarrow> float64 \<Rightarrow> float64" where
  "fdiv (Fin a) (Fin b) =
     (if b = 0 then (if a = 0 then NaN else if 0 < a then PInf else NInf)
      else fround (a / b))"
| "fdiv (Fin a) PInf = Fin 0"
| "fdiv (Fin a) NInf = Fin 0"
| "fdiv PInf (Fin b) = (if 0 \<le> b then PInf else NInf)"
| "fdiv NInf (Fin b) = (if 0 \<le> b then NInf else PInf)"
| "fdiv NaN b = NaN"
| "fdiv a NaN = NaN"
| "fdiv a b = NaN"

text \<open>
  \<open>numpy.sin\<close> and \<open>numpy.cos\<close> are the sine and cosine of the platform's mathematical
  library, which IEEE 754 does not fix to the last bit. The library is a parameter of the
  embedding: \<open>lsin lib a\<close> is the float64 that it returns for the finite float64 \<open>a\<close>.
  Of an infinity or NaN the sine and cosine are NaN. \<open>correctly_rounded\<close> is the library
  that returns the float64 nearest to the exact sine and cosine.
\<close>

record libm =
  lsin :: "real \<Rightarrow> real"
  lcos :: "real \<Rightarrow> real"

fun fsin :: "libm \<Rightarrow> float64 \<Rightarrow> float64" where
  "fsin lib (Fin a) = Fin (lsin lib a)"
| "fsin lib a = NaN"

fun fcos :: "libm \<Rightarrow> float64 \<Rightarrow> float64" where
  "fcos lib (Fin a) = Fin (lcos lib a)"
| "fcos lib a = NaN"

definition correctly_rounded :: libm where
  "correctly_rounded = \<lparr>lsin = (\<lambda>a. rnd (sin a)), lcos = (\<lambda>a. rnd (cos a))\<rparr>"

text \<open>
  The three methods again, operation by operation in the order Python evaluates them.
  \<open>x = math.pi * xdata * params[2] + params[3]\<close> is
  \<open>((math.pi * xdata) * params[2]) + params[3]\<close>, one element of it \<open>phase_f64\<close>.
\<close>

definition phase_f64 :: "float64 list \<Rightarrow> float64 \<Rightarrow> float64" where
  "phase_f64 params v = fadd (fmul (fmul (Fin math_pi) v) (params ! 2)) (params ! 3)"

text \<open>
  \<open>params[0] / ( 1.0 + params[1] * params[1] * sx * sx )\<close> is
  \<open>params[0] / (1.0 + (((params[1] * params[1]) * sx) * sx))\<close>.
\<close>

definition baseResult_f64 :: "libm \<Rightarrow> float64 list \<Rightarrow> float64 list \<Rightarrow> error + float64 list" where
  "baseResult_f64 lib xdata params =
     (if length params < 4 then Inl IndexError
      else
        let x = map (phase_f64 params) xdata;
            sx = map (fsin lib) x
        in Inr (map (\<lambda>s. fdiv (params ! 0)
                            (fadd (Fin 1.0) (fmul (fmul (fmul (params ! 1) (params ! 1)) s) s)))
                  sx))"

text \<open>
  \<open>- 2 * math.pi * params[0] * params[1] * params[1] * params[2] * sx * numpy.cos( x ) / dd\<close>
  multiplies from the left, starting from the float64 \<open>-2\<close>, and divides last.
\<close>

definition baseDerivative_f64 ::
  "libm \<Rightarrow> float64 list \<Rightarrow> float64 list \<Rightarrow> error + float64 list"
where
  "baseDerivative_f64 lib xdata params =
     (if length params < 4 then Inl IndexError
      else
        let x = map (phase_f64 params) xdata;
            sx = map (fsin lib) x;
            dd = map (\<lambda>s. fadd (Fin 1) (fmul (fmul (fmul (params ! 1) (params ! 1)) s) s)) sx;
            dd = map2 fmul dd dd
        in Inr (map2 fdiv
                 (map2 (\<lambda>s c. fmul (fmul (fmul (fmul (fmul (fmul (fmul (Fin (- 2)) (Fin math_pi))
                                  (params ! 0)) (params ! 1)) (params ! 1)) (params ! 2)) s) c)
                    sx (map (fcos lib) x))
                 dd))"

text \<open>The two-dimensional array of float64, as \<open>ndarray\<close> above.\<close>

record ndarray_f64 =
  nrows_f64 :: nat
  ncols_f64 :: nat
  cells_f64 :: "float64 list list"

definition numpy_ndarray_f64 :: "(nat \<Rightarrow> nat \<Rightarrow> float64) \<Rightarrow> nat \<Rightarrow> nat \<Rightarrow> ndarray_f64" where
  "numpy_ndarray_f64 junk n k =
     \<lparr>nrows_f64 = n, ncols_f64 = k, cells_f64 = map (\<lambda>i. map (junk i) [0..<k]) [0..<n]\<rparr>"

definition column_f64 :: "ndarray_f64 \<Rightarrow> nat \<Rightarrow> float64 list" where
  "column_f64 a k = map (\<lambda>row. row ! k) (cells_f64 a)"

definition set_column_f64 :: "ndarray_f64 \<Rightarrow> nat \<Rightarrow> float64 list \<Rightarrow> error + ndarray_f64" where
  "set_column_f64 a k v =
     (if \<not> k < ncols_f64 a then Inl IndexError
      else if length v \<noteq> nrows_f64 a then Inl ValueError
      else Inr (a\<lparr>cells_f64 := map2 (\<lambda>row y. row[k := y]) (cells_f64 a) v\<rparr>))"

fun fill_f64 ::
  "(int \<rightharpoonup> float64 list) \<Rightarrow> nat \<Rightarrow> int list \<Rightarrow> ndarray_f64 \<Rightarrow> error + ndarray_f64"
where
  "fill_f64 parts k [] partial = Inr partial"
| "fill_f64 parts k (kp # rest) partial =
     (case parts kp of
        None \<Rightarrow> Inl KeyError
      | Some col \<Rightarrow>
          (case set_column_f64 partial k col of
             Inl e \<Rightarrow> Inl e
           | Inr partial' \<Rightarrow> fill_f64 parts (Suc k) rest partial'))"

text \<open>
  The dictionary \<open>parts\<close> of \<open>basePartial\<close>:
  \<open>dd = 1.0 / (1 + ((params[1] * params[1]) * s2))\<close>,
  \<open>p3 = ((((((-2 * params[0]) * params[1]) * params[1]) * sx) * numpy.cos(x)) * d2)\<close>,
  entry 1 is \<open>((((-2 * params[0]) * params[1]) * s2) * d2)\<close> and entry 2 is
  \<open>((math.pi * xdata) * p3)\<close>.
\<close>

definition parts_of_f64 :: "libm \<Rightarrow> float64 list \<Rightarrow> float64 list \<Rightarrow> int \<rightharpoonup> float64 list" where
  "parts_of_f64 lib xdata params =
     (let x = map (phase_f64 params) xdata;
          sx = map (fsin lib) x;
          s2 = map2 fmul sx sx;
          dd = map (\<lambda>s. fdiv (Fin 1.0) (fadd (Fin 1) (fmul (fmul (params ! 1) (params ! 1)) s))) s2;
          d2 = map2 fmul dd dd;
          p3 = map2 fmul
                 (map2 (\<lambda>s c. fmul (fmul (fmul (fmul (fmul (Fin (- 2)) (params ! 0)) (params ! 1))
                                  (params ! 1)) s) c)
                    sx (map (fcos lib) x))
                 d2
      in [0 \<mapsto> dd,
          1 \<mapsto> map2 (\<lambda>s d. fmul (fmul (fmul (fmul (Fin (- 2)) (params ! 0)) (params ! 1)) s) d)
                 s2 d2,
          2 \<mapsto> map2 (\<lambda>v p. fmul (fmul (Fin math_pi) v) p) xdata p3,
          3 \<mapsto> p3])"

definition basePartial_f64 ::
  "libm \<Rightarrow> model \<Rightarrow> (nat \<Rightarrow> nat \<Rightarrow> float64) \<Rightarrow> float64 list \<Rightarrow> float64 list \<Rightarrow> int list option
     \<Rightarrow> error + ndarray_f64"
where
  "basePartial_f64 lib self junk xdata params parlist =
     (let np = (case parlist of None \<Rightarrow> npbase self | Some l \<Rightarrow> length l);
          partial = numpy_ndarray_f64 junk (length xdata) np
      in if length params < 4 then Inl IndexError
         else
           let parts = parts_of_f64 lib xdata params;
               parlist = (case parlist of None \<Rightarrow> map int [0..<npmax self] | Some l \<Rightarrow> l)
           in fill_f64 parts 0 parlist partial)"

subsection \<open>The three operations on a store\<close>

text \<open>
  To see what a call changes, the objects are put in a store: a list of objects, the
  address of an object being its index. \<open>self\<close>, \<open>xdata\<close> and \<open>params\<close> are addresses;
  \<open>params\<close> is read by \<open>params[i]\<close> and is an array here. A new object is appended, so
  the number of objects before a call tells the old objects from the new ones. An
  address with no object or with an object of another kind is answered by
  \<open>TypeError\<close>. \<open>parlist\<close> is only iterated over and stays a value.
\<close>

datatype obj = Array "real list" | Array2 ndarray | Instance model

type_synonym store = "obj list"

type_synonym 'a action = "store \<Rightarrow> (error + 'a) \<times> store"

text \<open>
  An action runs on a store and gives a result or an error, and the store after it.
  \<open>then_do\<close> runs one action after another and stops at the first error.
\<close>

definition ret :: "'a \<Rightarrow> 'a action" where
  "ret x st = (Inr x, st)"

definition raise :: "error \<Rightarrow> 'a action" where
  "raise e st = (Inl e, st)"

definition then_do :: "'a action \<Rightarrow> ('a \<Rightarrow> 'b action) \<Rightarrow> 'b action" where
  "then_do m f st = (case m st of (Inl e, st') \<Rightarrow> (Inl e, st') | (Inr x, st') \<Rightarrow> f x st')"

text \<open>Creating, reading and overwriting objects.\<close>

definition alloc :: "obj \<Rightarrow> nat action" where
  "alloc ob st = (Inr (length st), st @ [ob])"

definition array_at :: "nat \<Rightarrow> real list action" where
  "array_at a st =
     (if a < length st
      then (case st ! a of Array v \<Rightarrow> (Inr v, st) | _ \<Rightarrow> (Inl TypeError, st))
      else (Inl TypeError, st))"

definition array2_at :: "nat \<Rightarrow> ndarray action" where
  "array2_at a st =
     (if a < length st
      then (case st ! a of Array2 m \<Rightarrow> (Inr m, st) | _ \<Rightarrow> (Inl TypeError, st))
      else (Inl TypeError, st))"

definition instance_at :: "nat \<Rightarrow> model action" where
  "instance_at a st =
     (if a < length st
      then (case st ! a of Instance m \<Rightarrow> (Inr m, st) | _ \<Rightarrow> (Inl TypeError, st))
      else (Inl TypeError, st))"

definition put :: "nat \<Rightarrow> obj \<Rightarrow> unit action" where
  "put a ob st = (Inr (), st[a := ob])"

text \<open>
  \<open>params[i]\<close> for an index from 0 on. The numpy operations: \<open>np_scalar f a\<close> is an
  array combined with a scalar, or a function of numpy applied to the array
  (\<open>math.pi * a\<close>, \<open>numpy.sin(a)\<close>); \<open>np_binary f a b\<close> combines two arrays of the same
  length (\<open>a * b\<close>); both create the array of the results. \<open>np_inplace f a b\<close> is the
  augmented assignment (\<open>a *= b\<close>), which writes the results into \<open>a\<close>.
\<close>

definition getitem :: "nat \<Rightarrow> nat \<Rightarrow> real action" where
  "getitem a i =
     then_do (array_at a) (\<lambda>v. if i < length v then ret (v ! i) else raise IndexError)"

definition np_scalar :: "(real \<Rightarrow> real) \<Rightarrow> nat \<Rightarrow> nat action" where
  "np_scalar f a = then_do (array_at a) (\<lambda>v. alloc (Array (map f v)))"

definition np_binary :: "(real \<Rightarrow> real \<Rightarrow> real) \<Rightarrow> nat \<Rightarrow> nat \<Rightarrow> nat action" where
  "np_binary f a b =
     then_do (array_at a) (\<lambda>u.
     then_do (array_at b) (\<lambda>v.
       if length u = length v then alloc (Array (map2 f u v)) else raise ValueError))"

definition np_inplace :: "(real \<Rightarrow> real \<Rightarrow> real) \<Rightarrow> nat \<Rightarrow> nat \<Rightarrow> unit action" where
  "np_inplace f a b =
     then_do (array_at a) (\<lambda>u.
     then_do (array_at b) (\<lambda>v.
       if length u = length v then put a (Array (map2 f u v)) else raise ValueError))"

text \<open>\<open>x = math.pi * xdata * params[2] + params[3]\<close>: three new arrays.\<close>

definition phase_st :: "nat \<Rightarrow> nat \<Rightarrow> nat action" where
  "phase_st xdata params =
     then_do (np_scalar (\<lambda>v. pi * v) xdata) (\<lambda>t1.
     then_do (getitem params 2) (\<lambda>p2.
     then_do (np_scalar (\<lambda>v. v * p2) t1) (\<lambda>t2.
     then_do (getitem params 3) (\<lambda>p3.
       np_scalar (\<lambda>v. v + p3) t2))))"

text \<open>
  \<open>baseResult\<close>: after \<open>x\<close> and \<open>sx = numpy.sin( x )\<close>, the quotient
  \<open>params[0] / ( 1.0 + ((params[1] * params[1]) * sx) * sx )\<close>, a new array at each step.
\<close>

definition baseResult_st :: "nat \<Rightarrow> nat \<Rightarrow> nat \<Rightarrow> nat action" where
  "baseResult_st self xdata params =
     then_do (phase_st xdata params) (\<lambda>x.
     then_do (np_scalar sin x) (\<lambda>sx.
     then_do (getitem params 0) (\<lambda>p0.
     then_do (getitem params 1) (\<lambda>p1.
     then_do (getitem params 1) (\<lambda>p1'.
     then_do (np_scalar (\<lambda>v. p1 * p1' * v) sx) (\<lambda>t1.
     then_do (np_binary (*) t1 sx) (\<lambda>t2.
     then_do (np_scalar (\<lambda>v. 1.0 + v) t2) (\<lambda>t3.
       np_scalar (\<lambda>v. p0 / v) t3))))))))"

text \<open>
  \<open>baseDerivative\<close>: \<open>dd = 1 + params[1] * params[1] * sx * sx\<close> is a new array, and
  \<open>dd *= dd\<close> overwrites it in place.
\<close>

definition baseDerivative_st :: "nat \<Rightarrow> nat \<Rightarrow> nat \<Rightarrow> nat action" where
  "baseDerivative_st self xdata params =
     then_do (phase_st xdata params) (\<lambda>x.
     then_do (np_scalar sin x) (\<lambda>sx.
     then_do (getitem params 1) (\<lambda>p1.
     then_do (getitem params 1) (\<lambda>p1'.
     then_do (np_scalar (\<lambda>v. p1 * p1' * v) sx) (\<lambda>t1.
     then_do (np_binary (*) t1 sx) (\<lambda>t2.
     then_do (np_scalar (\<lambda>v. 1 + v) t2) (\<lambda>dd.
     then_do (np_inplace (*) dd dd) (\<lambda>_.
     then_do (getitem params 0) (\<lambda>q0.
     then_do (getitem params 1) (\<lambda>q1.
     then_do (getitem params 1) (\<lambda>q1'.
     then_do (getitem params 2) (\<lambda>q2.
     then_do (np_scalar (\<lambda>v. - 2 * pi * q0 * q1 * q1' * q2 * v) sx) (\<lambda>t3.
     then_do (np_scalar cos x) (\<lambda>cx.
     then_do (np_binary (*) t3 cx) (\<lambda>t4.
       np_binary (/) t4 dd)))))))))))))))"

text \<open>
  \<open>basePartial\<close>. The closures of \<open>parts\<close> run when the loop calls them: those for the
  keys 1 and 2 read \<open>params\<close> and create arrays then, those for 0 and 3 hand out \<open>dd\<close>
  and \<open>p3\<close>.
\<close>

definition part1_st :: "nat \<Rightarrow> nat \<Rightarrow> nat \<Rightarrow> nat action" where
  "part1_st params s2 d2 =
     then_do (getitem params 0) (\<lambda>q0.
     then_do (getitem params 1) (\<lambda>q1.
     then_do (np_scalar (\<lambda>v. - 2 * q0 * q1 * v) s2) (\<lambda>t.
       np_binary (*) t d2)))"

definition part2_st :: "nat \<Rightarrow> nat \<Rightarrow> nat action" where
  "part2_st xdata p3 =
     then_do (np_scalar (\<lambda>v. pi * v) xdata) (\<lambda>t.
       np_binary (*) t p3)"

definition parts_st :: "nat \<Rightarrow> nat \<Rightarrow> nat \<Rightarrow> nat \<Rightarrow> nat \<Rightarrow> nat \<Rightarrow> int \<Rightarrow> nat action" where
  "parts_st xdata params s2 dd d2 p3 kp =
     (if kp = 0 then ret dd
      else if kp = 1 then part1_st params s2 d2
      else if kp = 2 then part2_st xdata p3
      else if kp = 3 then ret p3
      else raise KeyError)"

text \<open>\<open>partial[:,k] = col\<close> overwrites the matrix at \<open>partial\<close>.\<close>

definition setitem_column :: "nat \<Rightarrow> nat \<Rightarrow> nat \<Rightarrow> unit action" where
  "setitem_column partial k col =
     then_do (array2_at partial) (\<lambda>m.
     then_do (array_at col) (\<lambda>v.
       case set_column m k v of
         Inl e \<Rightarrow> raise e
       | Inr m' \<Rightarrow> put partial (Array2 m')))"

fun fill_st :: "(int \<Rightarrow> nat action) \<Rightarrow> nat \<Rightarrow> nat \<Rightarrow> int list \<Rightarrow> unit action" where
  "fill_st parts partial k [] = ret ()"
| "fill_st parts partial k (kp # rest) =
     then_do (parts kp) (\<lambda>col.
     then_do (setitem_column partial k col) (\<lambda>_.
       fill_st parts partial (Suc k) rest))"

text \<open>The lines from \<open>x = ...\<close> to \<open>p3 = ...\<close>; they give \<open>s2\<close>, \<open>dd\<close>, \<open>d2\<close> and \<open>p3\<close>.\<close>

definition terms_st :: "nat \<Rightarrow> nat \<Rightarrow> (nat \<times> nat \<times> nat \<times> nat) action" where
  "terms_st xdata params =
     then_do (phase_st xdata params) (\<lambda>x.
     then_do (np_scalar sin x) (\<lambda>sx.
     then_do (np_binary (*) sx sx) (\<lambda>s2.
     then_do (getitem params 1) (\<lambda>p1.
     then_do (getitem params 1) (\<lambda>p1'.
     then_do (np_scalar (\<lambda>v. p1 * p1' * v) s2) (\<lambda>t1.
     then_do (np_scalar (\<lambda>v. 1 + v) t1) (\<lambda>t2.
     then_do (np_scalar (\<lambda>v. 1.0 / v) t2) (\<lambda>dd.
     then_do (np_binary (*) dd dd) (\<lambda>d2.
     then_do (getitem params 0) (\<lambda>q0.
     then_do (getitem params 1) (\<lambda>q1.
     then_do (getitem params 1) (\<lambda>q1'.
     then_do (np_scalar (\<lambda>v. - 2 * q0 * q1 * q1' * v) sx) (\<lambda>t3.
     then_do (np_scalar cos x) (\<lambda>cx.
     then_do (np_binary (*) t3 cx) (\<lambda>t4.
     then_do (np_binary (*) t4 d2) (\<lambda>p3.
       ret (s2, dd, d2, p3)))))))))))))))))"

definition basePartial_st ::
  "nat \<Rightarrow> (nat \<Rightarrow> nat \<Rightarrow> real) \<Rightarrow> nat \<Rightarrow> nat \<Rightarrow> int list option \<Rightarrow> nat action"
where
  "basePartial_st self junk xdata params parlist =
     then_do (case parlist of
                None \<Rightarrow> then_do (instance_at self) (\<lambda>m. ret (npbase m))
              | Some l \<Rightarrow> ret (length l)) (\<lambda>np.
     then_do (array_at xdata) (\<lambda>xs.
     then_do (alloc (Array2 (numpy_ndarray junk (length xs) np))) (\<lambda>partial.
     then_do (terms_st xdata params) (\<lambda>(s2, dd, d2, p3).
     then_do (case parlist of
                None \<Rightarrow> then_do (instance_at self) (\<lambda>m. ret (map int [0..<npmax m]))
              | Some l \<Rightarrow> ret l) (\<lambda>parlist.
     then_do (fill_st (parts_st xdata params s2 dd d2 p3) partial 0 parlist) (\<lambda>_.
       ret partial))))))"

text \<open>
  \<open>keeps n m Q\<close>: run on a store of at least \<open>n\<close> objects, the action \<open>m\<close> leaves the
  first \<open>n\<close> objects as they are, and a result satisfies \<open>Q\<close>.
\<close>

definition keeps :: "nat \<Rightarrow> 'a action \<Rightarrow> ('a \<Rightarrow> bool) \<Rightarrow> bool" where
  "keeps n m Q =
     (\<forall>st. n \<le> length st \<longrightarrow>
        (case m st of (r, st') \<Rightarrow>
           n \<le> length st' \<and> take n st' = take n st \<and> (\<forall>x. r = Inr x \<longrightarrow> Q x)))"

text \<open>\<open>holds st a ob\<close>: the store has the object \<open>ob\<close> at the address \<open>a\<close>.\<close>

definition holds :: "store \<Rightarrow> nat \<Rightarrow> obj \<Rightarrow> bool" where
  "holds st a ob = (a < length st \<and> st ! a = ob)"

subsection \<open>Units of the parameters\<close>

text \<open>
  \<^verbatim>\<open>
  def baseParameterUnit( self, k ):
      if k == 0: return self.yUnit
      if k == 1: return units.Unit( "" )
      if k == 2: return units.Unit( units.si.rad ) / self.xUnit
      if k == 3: return units.Unit( units.si.rad )
      return self.yUnit
  \<close>
\<close>

definition baseParameterUnit :: "model \<Rightarrow> int \<Rightarrow> astropy_unit" where
  "baseParameterUnit self k =
     (if k = 0 then yUnit self
      else if k = 1 then Unit_str []
      else if k = 2 then Per (Unit_of si_rad) (xUnit self)
      else if k = 3 then Unit_of si_rad
      else yUnit self)"

section \<open>Properties\<close>

subsection \<open>Arrays\<close>

lemma zip_map_map_same: "zip (map g xs) (map h xs) = map (\<lambda>x. (g x, h x)) xs"
  by (induction xs) auto

lemma zip_self_map: "zip xs (map h xs) = map (\<lambda>x. (x, h x)) xs"
  by (induction xs) auto

lemma zip_map_self: "zip (map g xs) xs = map (\<lambda>x. (g x, x)) xs"
  by (induction xs) auto

lemmas elementwise = zip_map_map_same zip_self_map zip_map_self o_def

lemma wf_numpy_ndarray: "wf_ndarray (numpy_ndarray junk n k)"
  by (simp add: wf_ndarray_def numpy_ndarray_def list_all_iff)

lemma shape_numpy_ndarray:
  "nrows (numpy_ndarray junk n k) = n" "ncols (numpy_ndarray junk n k) = k"
  by (simp_all add: numpy_ndarray_def)

text \<open>An assignment within the shape writes its column and leaves the others.\<close>

lemma set_column_ok:
  assumes "wf_ndarray a" "k < ncols a" "length v = nrows a"
  shows "\<exists>a'. set_column a k v = Inr a' \<and> wf_ndarray a' \<and> nrows a' = nrows a
           \<and> ncols a' = ncols a \<and> column a' k = v
           \<and> (\<forall>j. j \<noteq> k \<longrightarrow> column a' j = column a j)"
proof -
  let ?a' = "a\<lparr>cells := map2 (\<lambda>row y. row[k := y]) (cells a) v\<rparr>"
  have len: "length (cells a) = length v"
    and rows: "\<forall>row \<in> set (cells a). length row = ncols a"
    using assms by (simp_all add: wf_ndarray_def list_all_iff)
  have 1: "set_column a k v = Inr ?a'"
    using assms by (simp add: set_column_def)
  have 2: "wf_ndarray ?a'"
    using assms len rows by (auto simp: wf_ndarray_def list_all_iff dest!: set_zip_leftD)
  have 3: "column ?a' k = v"
    using len rows assms(2) by (auto simp: column_def intro!: nth_equalityI)
  have 4: "column ?a' j = column a j" if "j \<noteq> k" for j
    using len that by (auto simp: column_def intro!: nth_equalityI)
  show ?thesis using 1 2 3 4 by simp
qed

text \<open>
  The loop, started at column \<open>k\<close> with every requested key in the dictionary and
  enough columns left: it ends without error, column \<open>k + i\<close> holds the part of the
  \<open>i\<close>-th key, and the columns before \<open>k\<close> are as they were.
\<close>

lemma fill_ok:
  assumes "wf_ndarray a" "k + length L \<le> ncols a"
    and "\<forall>kp \<in> set L. \<exists>col. parts kp = Some col \<and> length col = nrows a"
  shows "\<exists>a'. fill parts k L a = Inr a' \<and> wf_ndarray a' \<and> nrows a' = nrows a
           \<and> ncols a' = ncols a
           \<and> (\<forall>i < length L. parts (L ! i) = Some (column a' (k + i)))
           \<and> (\<forall>j < k. column a' j = column a j)"
  using assms
proof (induction L arbitrary: k a)
  case Nil
  then show ?case by simp
next
  case (Cons kp rest)
  from Cons.prems(3) obtain col where col: "parts kp = Some col" "length col = nrows a"
    by auto
  from Cons.prems(2) have k: "k < ncols a" by simp
  from set_column_ok [OF Cons.prems(1) k col(2)] obtain b where
    b: "set_column a k col = Inr b" "wf_ndarray b" "nrows b = nrows a" "ncols b = ncols a"
       "column b k = col" "\<forall>j. j \<noteq> k \<longrightarrow> column b j = column a j"
    by blast
  have "\<exists>a'. fill parts (Suc k) rest b = Inr a' \<and> wf_ndarray a' \<and> nrows a' = nrows b
          \<and> ncols a' = ncols b
          \<and> (\<forall>i < length rest. parts (rest ! i) = Some (column a' (Suc k + i)))
          \<and> (\<forall>j < Suc k. column a' j = column b j)"
    using Cons.prems b by (intro Cons.IH) auto
  then obtain a' where
    a': "fill parts (Suc k) rest b = Inr a'" "wf_ndarray a'" "nrows a' = nrows b"
      "ncols a' = ncols b"
      "\<forall>i < length rest. parts (rest ! i) = Some (column a' (Suc k + i))"
      "\<forall>j < Suc k. column a' j = column b j"
    by blast
  have "fill parts k (kp # rest) a = Inr a'"
    using col b a' by simp
  moreover have "\<forall>i < length (kp # rest). parts ((kp # rest) ! i) = Some (column a' (k + i))"
  proof (intro allI impI)
    fix i assume "i < length (kp # rest)"
    then show "parts ((kp # rest) ! i) = Some (column a' (k + i))"
      using a'(5,6) b(5) col(1) by (cases i) auto
  qed
  moreover have "\<forall>j < k. column a' j = column a j"
    using a'(6) b(6) by auto
  ultimately show ?case using a' b by auto
qed

subsection \<open>The dictionary of partials\<close>

lemma parts_of_0:
  "parts_of xdata p 0 =
     Some (map (\<lambda>x. 1 / (1 + (p ! 1)\<^sup>2 * (sin (pi * x * p ! 2 + p ! 3))\<^sup>2)) xdata)"
  by (simp add: parts_of_def Let_def elementwise power2_eq_square mult.assoc)

lemma parts_of_1:
  "parts_of xdata p 1 =
     Some (map (\<lambda>x. - 2 * p ! 0 * p ! 1 * (sin (pi * x * p ! 2 + p ! 3))\<^sup>2
                     / (1 + (p ! 1)\<^sup>2 * (sin (pi * x * p ! 2 + p ! 3))\<^sup>2)\<^sup>2) xdata)"
  by (simp add: parts_of_def Let_def elementwise power2_eq_square mult.assoc divide_simps)

lemma parts_of_3:
  "parts_of xdata p 3 =
     Some (map (\<lambda>x. - 2 * p ! 0 * (p ! 1)\<^sup>2 * sin (pi * x * p ! 2 + p ! 3)
                     * cos (pi * x * p ! 2 + p ! 3)
                     / (1 + (p ! 1)\<^sup>2 * (sin (pi * x * p ! 2 + p ! 3))\<^sup>2)\<^sup>2) xdata)"
  by (simp add: parts_of_def Let_def elementwise power2_eq_square mult.assoc divide_simps)

lemma parts_of_2:
  "parts_of xdata p 2 =
     Some (map (\<lambda>x. pi * x *
                     (- 2 * p ! 0 * (p ! 1)\<^sup>2 * sin (pi * x * p ! 2 + p ! 3)
                      * cos (pi * x * p ! 2 + p ! 3)
                      / (1 + (p ! 1)\<^sup>2 * (sin (pi * x * p ! 2 + p ! 3))\<^sup>2)\<^sup>2)) xdata)"
  by (simp add: parts_of_def Let_def elementwise power2_eq_square mult.assoc divide_simps)

lemma parts_of_keys:
  assumes "kp \<in> {0, 1, 2, 3}"
  shows "\<exists>col. parts_of xdata p kp = Some col \<and> length col = length xdata"
  using assms parts_of_0 [of xdata p] parts_of_1 [of xdata p] parts_of_2 [of xdata p]
    parts_of_3 [of xdata p]
  by auto

text \<open>
  \<open>basePartial\<close> with a selection list of valid indices: one column per entry, in the
  order of the list.
\<close>

lemma basePartial_Some:
  assumes "4 \<le> length p" "set L \<subseteq> {0, 1, 2, 3}"
  shows "\<exists>m. basePartial self junk xdata p (Some L) = Inr m \<and> wf_ndarray m
           \<and> nrows m = length xdata \<and> ncols m = length L
           \<and> (\<forall>i < length L. parts_of xdata p (L ! i) = Some (column m i))"
proof -
  let ?a = "numpy_ndarray junk (length xdata) (length L)"
  have keys: "\<forall>kp \<in> set L. \<exists>col. parts_of xdata p kp = Some col \<and> length col = nrows ?a"
    using assms(2) parts_of_keys [of _ xdata p] by (auto simp: shape_numpy_ndarray)
  have "0 + length L \<le> ncols ?a"
    by (simp add: shape_numpy_ndarray)
  from fill_ok [OF wf_numpy_ndarray this keys]
  show ?thesis
    using assms(1) by (auto simp: basePartial_def Let_def shape_numpy_ndarray)
qed

text \<open>
  Without a selection list, for a model of four free parameters: the four columns in
  the natural order.
\<close>

lemma basePartial_None:
  assumes "4 \<le> length p" "npbase self = 4" "npmax self = 4"
  shows "\<exists>m. basePartial self junk xdata p None = Inr m \<and> wf_ndarray m
           \<and> nrows m = length xdata \<and> ncols m = 4
           \<and> parts_of xdata p 0 = Some (column m 0)
           \<and> parts_of xdata p 1 = Some (column m 1)
           \<and> parts_of xdata p 2 = Some (column m 2)
           \<and> parts_of xdata p 3 = Some (column m 3)"
proof -
  have upt4: "map int [0..<4] = [0, 1, 2, 3]"
    by (simp add: upt_rec)
  have len4: "length [0, 1, 2, 3 :: int] = 4"
    by simp
  have eq: "basePartial self junk xdata p None = basePartial self junk xdata p (Some [0, 1, 2, 3])"
    unfolding basePartial_def Let_def option.case assms(2,3) upt4 len4 ..
  from basePartial_Some [of p "[0, 1, 2, 3]" self junk xdata] assms(1) obtain m where
    m: "basePartial self junk xdata p (Some [0, 1, 2, 3]) = Inr m" "wf_ndarray m"
      "nrows m = length xdata" "ncols m = length [0, 1, 2, 3 :: int]"
      "\<forall>i < length [0, 1, 2, 3 :: int]. parts_of xdata p ([0, 1, 2, 3] ! i) = Some (column m i)"
    by auto
  have "parts_of xdata p ([0, 1, 2, 3] ! i) = Some (column m i)" if "i < 4" for i
    using m(5) that by simp
  from this [of 0] this [of 1] this [of 2] this [of 3] have "parts_of xdata p 0 = Some (column m 0)" "parts_of xdata p 1 = Some (column m 1)"
    "parts_of xdata p 2 = Some (column m 2)" "parts_of xdata p 3 = Some (column m 3)"
    by simp_all
  with m(1-4) eq show ?thesis by simp
qed

subsection \<open>Rounding to float64\<close>

text \<open>
  Rounding is monotone and keeps the numbers of the grid: a float64 that bounds the exact
  result bounds the rounded one.
\<close>

lemma two_pow_pos [simp]: "0 < two_pow e"
  by (simp add: two_pow_def)

lemma two_pow_nonneg [simp]: "0 \<le> two_pow e"
  by (simp add: two_pow_def)

lemma two_pow_neq0 [simp]: "two_pow e \<noteq> 0"
  by (simp add: two_pow_def)

lemma abs_two_pow [simp]: "\<bar>two_pow e\<bar> = two_pow e"
  by (simp add: two_pow_def)

lemma two_pow_add: "two_pow (a + b) = two_pow a * two_pow b"
  by (simp add: two_pow_def powr_add)

lemma two_pow_nat: "0 \<le> e \<Longrightarrow> two_pow e = of_int (2 ^ nat e)"
  by (simp add: two_pow_def powr_real_of_int)

lemma two_pow_mono: "a \<le> b \<Longrightarrow> two_pow a \<le> two_pow b"
  by (simp add: two_pow_def)

lemma two_pow_less: "a < b \<Longrightarrow> two_pow a < two_pow b"
  by (simp add: two_pow_def)

lemma two_pow_diff: "two_pow a / two_pow b = two_pow (a - b)"
  by (simp add: two_pow_def powr_diff)

lemma floor_log2:
  assumes "0 < x"
  shows "two_pow \<lfloor>log 2 x\<rfloor> \<le> x" "x < two_pow (\<lfloor>log 2 x\<rfloor> + 1)"
  using floor_log_eq_powr_iff [of x 2 "\<lfloor>log 2 x\<rfloor>"] assms
  by (simp_all add: two_pow_def)

lemma floor_log2_le: "0 < x \<Longrightarrow> x < two_pow k \<Longrightarrow> \<lfloor>log 2 x\<rfloor> < k"
  using floor_log2(1) [of x] two_pow_mono [of k "\<lfloor>log 2 x\<rfloor>"]
  by (smt (verit))

lemma floor_log2_ge: "0 < x \<Longrightarrow> two_pow k \<le> x \<Longrightarrow> k \<le> \<lfloor>log 2 x\<rfloor>"
  using floor_log2(2) [of x] two_pow_mono [of "\<lfloor>log 2 x\<rfloor> + 1" k]
  by (smt (verit))

lemma ulp_exp_mono: "x \<noteq> 0 \<Longrightarrow> \<bar>x\<bar> \<le> \<bar>y\<bar> \<Longrightarrow> ulp_exp x \<le> ulp_exp y"
proof -
  assume a: "x \<noteq> 0" "\<bar>x\<bar> \<le> \<bar>y\<bar>"
  then have "log 2 \<bar>x\<bar> \<le> log 2 \<bar>y\<bar>" by simp
  then have "\<lfloor>log 2 \<bar>x\<bar>\<rfloor> \<le> \<lfloor>log 2 \<bar>y\<bar>\<rfloor>" by (rule floor_mono)
  then show ?thesis by (simp add: ulp_exp_def)
qed

lemma ulp_exp_minus [simp]: "ulp_exp (- x) = ulp_exp x"
  by (simp add: ulp_exp_def)

lemma round_even_int [simp]: "round_even (of_int n) = n"
  by (simp add: round_even_def)

lemma round_even_le: "q \<le> of_int n \<Longrightarrow> round_even q \<le> n"
proof -
  assume q: "q \<le> of_int n"
  show ?thesis
  proof (cases "q = of_int n")
    case True then show ?thesis by simp
  next
    case False
    with q have "q < of_int n" by simp
    then have "\<lfloor>q\<rfloor> < n" by (simp add: floor_less_iff)
    then show ?thesis by (simp add: round_even_def Let_def)
  qed
qed

lemma round_even_ge: "of_int n \<le> q \<Longrightarrow> n \<le> round_even q"
proof -
  assume "of_int n \<le> q"
  then have "n \<le> \<lfloor>q\<rfloor>" by (simp add: le_floor_iff)
  then show ?thesis by (simp add: round_even_def Let_def)
qed

text \<open>A number of the grid is a whole multiple of its own unit.\<close>

lemma grid_multiple:
  assumes a: "a = of_int m * two_pow e" "\<bar>m\<bar> < 2 ^ 53" "- 1074 \<le> e" and "a \<noteq> 0"
  shows "\<exists>n. \<bar>a\<bar> = of_int n * two_pow (ulp_exp a) \<and> 0 < n"
proof -
  from assms(4) a(1) have m0: "m \<noteq> 0" by auto
  have abs: "\<bar>a\<bar> = of_int \<bar>m\<bar> * two_pow e"
    by (simp add: a(1) abs_mult)
  have "of_int \<bar>m\<bar> < (2::real) ^ 53"
    using a(2) by (metis of_int_less_iff of_int_numeral of_int_power)
  then have "\<bar>a\<bar> < 2 ^ 53 * two_pow e"
    unfolding abs by (simp add: mult_strict_right_mono)
  also have "\<dots> = two_pow (53 + e)"
    by (simp add: two_pow_add two_pow_nat)
  finally have "\<lfloor>log 2 \<bar>a\<bar>\<rfloor> < 53 + e"
    using assms(4) by (intro floor_log2_le) simp_all
  with a(3) have E: "ulp_exp a \<le> e"
    by (simp add: ulp_exp_def)
  define d where "d = e - ulp_exp a"
  have d: "0 \<le> d" "e = d + ulp_exp a" using E by (simp_all add: d_def)
  have "\<bar>a\<bar> = of_int (\<bar>m\<bar> * 2 ^ nat d) * two_pow (ulp_exp a)"
    unfolding abs d(2) two_pow_add using d(1) by (simp add: two_pow_nat)
  moreover have "0 < \<bar>m\<bar> * 2 ^ nat d" using m0 by simp
  ultimately show ?thesis by blast
qed

lemma rnd_zero [simp]: "rnd 0 = 0"
  by (simp add: rnd_def)

lemma rnd_minus: "rnd (- x) = - rnd x"
  by (simp add: rnd_def sgn_minus)

lemma representableI:
  assumes "\<bar>m\<bar> < 2 ^ 53" "- 1074 \<le> e" "a = of_int m * two_pow e"
  shows "representable a"
proof (cases "a = 0")
  case True then show ?thesis by (simp add: representable_def)
next
  case False
  from grid_multiple [OF assms(3,1,2) False] obtain n where
    n: "\<bar>a\<bar> = of_int n * two_pow (ulp_exp a)" by blast
  then have "\<bar>a\<bar> / two_pow (ulp_exp a) = of_int n" by simp
  then have "rnd a = sgn a * \<bar>a\<bar>"
    using False n by (simp add: rnd_def)
  then show ?thesis by (simp add: sgn_mult_abs representable_def)
qed

lemma rnd_id: "representable a \<Longrightarrow> rnd a = a"
  by (simp add: representable_def)

lemma round_even_nonneg: "0 \<le> q \<Longrightarrow> 0 \<le> round_even q"
  by (rule round_even_ge) simp

lemma representable_multiple:
  assumes "representable a" "a \<noteq> 0"
  shows "\<exists>n. \<bar>a\<bar> = of_int n * two_pow (ulp_exp a) \<and> 0 < n"
proof -
  define n where "n = round_even (\<bar>a\<bar> / two_pow (ulp_exp a))"
  have n0: "0 \<le> n"
    unfolding n_def by (rule round_even_nonneg) simp
  from assms have "a = sgn a * (of_int n * two_pow (ulp_exp a))"
    by (simp add: representable_def rnd_def n_def)
  then have "\<bar>a\<bar> = \<bar>sgn a\<bar> * \<bar>of_int n * two_pow (ulp_exp a)\<bar>"
    by (metis abs_mult)
  with assms(2) n0 have eq: "\<bar>a\<bar> = of_int n * two_pow (ulp_exp a)"
    by (simp add: abs_mult abs_sgn_eq)
  with assms(2) have "n \<noteq> 0" by auto
  with n0 eq show ?thesis by auto
qed

lemma rnd_nonneg: "0 \<le> x \<Longrightarrow> 0 \<le> rnd x"
proof -
  assume x: "0 \<le> x"
  have "0 \<le> round_even (\<bar>x\<bar> / two_pow (ulp_exp x))"
    by (rule round_even_ge) simp
  then show ?thesis using x by (simp add: rnd_def sgn_if)
qed

lemma rnd_nonpos: "x \<le> 0 \<Longrightarrow> rnd x \<le> 0"
  using rnd_nonneg [of "- x"] by (simp add: rnd_minus)

lemma rnd_pos_eq:
  "0 < x \<Longrightarrow> rnd x = of_int (round_even (x / two_pow (ulp_exp x))) * two_pow (ulp_exp x)"
  by (simp add: rnd_def)

lemma scale_mono: "i \<le> j \<Longrightarrow> of_int i * two_pow e \<le> of_int j * two_pow e"
  by (simp add: mult_right_mono)

lemma rnd_upper_pos:
  assumes "representable a" "0 < x" "x \<le> a"
  shows "rnd x \<le> a"
proof -
  from assms have a0: "a \<noteq> 0" "0 < a" by auto
  from representable_multiple [OF assms(1) a0(1)] a0(2) obtain n where
    n: "a = of_int n * two_pow (ulp_exp a)" by auto
  have "ulp_exp x \<le> ulp_exp a"
    using assms by (intro ulp_exp_mono) auto
  define d where "d = ulp_exp a - ulp_exp x"
  have d: "0 \<le> d" "ulp_exp a = d + ulp_exp x"
    using \<open>ulp_exp x \<le> ulp_exp a\<close> by (simp_all add: d_def)
  have a: "a = of_int (n * 2 ^ nat d) * two_pow (ulp_exp x)"
    using n d(1) unfolding d(2) two_pow_add by (simp add: two_pow_nat)
  have "x / two_pow (ulp_exp x) \<le> of_int (n * 2 ^ nat d)"
    using assms(3) unfolding a by (simp add: field_simps)
  then have "round_even (x / two_pow (ulp_exp x)) \<le> n * 2 ^ nat d"
    by (rule round_even_le)
  then have "of_int (round_even (x / two_pow (ulp_exp x))) * two_pow (ulp_exp x)
      \<le> of_int (n * 2 ^ nat d) * two_pow (ulp_exp x)"
    by (rule scale_mono)
  then show ?thesis
    unfolding rnd_pos_eq [OF assms(2)] a [symmetric] .
qed

lemma rnd_lower_pos:
  assumes "representable a" "0 < a" "a \<le> x"
  shows "a \<le> rnd x"
proof -
  from assms have x0: "0 < x" by simp
  from assms have a0: "a \<noteq> 0" by simp
  from representable_multiple [OF assms(1) a0] assms(2) obtain n where
    n: "a = of_int n * two_pow (ulp_exp a)" by auto
  have le: "ulp_exp a \<le> ulp_exp x"
    using assms by (intro ulp_exp_mono) auto
  show ?thesis
  proof (cases "ulp_exp a = ulp_exp x")
    case True
    have "of_int n \<le> x / two_pow (ulp_exp x)"
      using assms(3) n True by (simp add: field_simps)
    then have "n \<le> round_even (x / two_pow (ulp_exp x))"
      by (rule round_even_ge)
    then have "of_int n * two_pow (ulp_exp x)
        \<le> of_int (round_even (x / two_pow (ulp_exp x))) * two_pow (ulp_exp x)"
      by (rule scale_mono)
    then show ?thesis
      unfolding rnd_pos_eq [OF x0] using n True by simp
  next
    case False
    with le have lt: "ulp_exp a < ulp_exp x" by simp
    define k where "k = \<lfloor>log 2 x\<rfloor>"
    have E: "ulp_exp x = k - 52"
      using lt x0 by (simp add: ulp_exp_def k_def max_def split: if_splits)
    have "\<lfloor>log 2 a\<rfloor> - 52 \<le> ulp_exp a"
      using assms(2) by (simp add: ulp_exp_def)
    with lt E have "\<lfloor>log 2 a\<rfloor> + 1 \<le> k" by simp
    then have "a < two_pow k"
      using floor_log2(2) [OF assms(2)] two_pow_mono [of "\<lfloor>log 2 a\<rfloor> + 1" k] by simp
    have "two_pow k \<le> x"
      using floor_log2(1) [OF x0] by (simp add: k_def)
    then have "two_pow k / two_pow (ulp_exp x) \<le> x / two_pow (ulp_exp x)"
      by (simp add: divide_right_mono)
    define c :: int where "c = 2 ^ 52"
    have c: "two_pow 52 = of_int c"
      by (simp add: two_pow_nat c_def)
    have "two_pow k / two_pow (ulp_exp x) = of_int c"
      unfolding two_pow_diff E c [symmetric] by simp
    with \<open>two_pow k / two_pow (ulp_exp x) \<le> x / two_pow (ulp_exp x)\<close>
    have "of_int c \<le> x / two_pow (ulp_exp x)"
      by simp
    then have "c \<le> round_even (x / two_pow (ulp_exp x))"
      by (rule round_even_ge)
    then have "of_int c * two_pow (ulp_exp x)
        \<le> of_int (round_even (x / two_pow (ulp_exp x))) * two_pow (ulp_exp x)"
      by (rule scale_mono)
    moreover have "of_int c * two_pow (ulp_exp x) = two_pow k"
      using two_pow_add [of 52 "k - 52"] unfolding E c by simp
    ultimately have "two_pow k \<le> rnd x"
      unfolding rnd_pos_eq [OF x0] by simp
    with \<open>a < two_pow k\<close> show ?thesis by simp
  qed
qed

lemma representable_minus: "representable a \<Longrightarrow> representable (- a)"
  by (simp add: representable_def rnd_minus)

lemma representable_zero [simp]: "representable 0"
  by (simp add: representable_def)

lemma rnd_upper:
  assumes "representable a" "x \<le> a"
  shows "rnd x \<le> a"
proof -
  consider "0 < x" | "x \<le> 0" "0 \<le> a" | "x \<le> 0" "a < 0" by linarith
  then show ?thesis
  proof cases
    case 1 then show ?thesis using assms by (intro rnd_upper_pos)
  next
    case 2 then show ?thesis using rnd_nonpos [of x] by simp
  next
    case 3
    have "- a \<le> rnd (- x)"
      using assms 3 by (intro rnd_lower_pos representable_minus) simp_all
    then show ?thesis by (simp add: rnd_minus)
  qed
qed

lemma rnd_lower:
  assumes "representable a" "a \<le> x"
  shows "a \<le> rnd x"
  using rnd_upper [OF representable_minus [OF assms(1)], of "- x"] assms(2)
  by (simp add: rnd_minus)

lemma rnd_abs_le: "representable a \<Longrightarrow> \<bar>x\<bar> \<le> a \<Longrightarrow> \<bar>rnd x\<bar> \<le> a"
  using rnd_upper [of a x] rnd_lower [of "- a" x] representable_minus [of a]
  by (simp add: abs_le_iff)

lemma ulp_exp_bounds:
  assumes "x \<noteq> 0"
  shows "\<bar>x\<bar> < two_pow (ulp_exp x + 53)"
proof -
  have "\<lfloor>log 2 \<bar>x\<bar>\<rfloor> + 1 \<le> ulp_exp x + 53"
    by (simp add: ulp_exp_def)
  then have "two_pow (\<lfloor>log 2 \<bar>x\<bar>\<rfloor> + 1) \<le> two_pow (ulp_exp x + 53)"
    by (rule two_pow_mono)
  with floor_log2(2) [of "\<bar>x\<bar>"] assms show ?thesis by simp
qed

lemma rnd_representable: "representable (rnd x)"
proof (cases "x = 0")
  case True then show ?thesis by simp
next
  case False
  define E where "E = ulp_exp x"
  define n where "n = round_even (\<bar>x\<bar> / two_pow E)"
  define c :: int where "c = 2 ^ 53"
  define sg :: int where "sg = (if 0 < x then 1 else - 1)"
  have sg: "sgn x = of_int sg" "\<bar>sg\<bar> = 1"
    using False by (simp_all add: sg_def sgn_if)
  have c: "two_pow 53 = of_int c" by (simp add: two_pow_nat c_def)
  have r: "rnd x = of_int sg * (of_int n * two_pow E)"
    using False by (simp add: rnd_def n_def E_def sg(1))
  have "\<bar>x\<bar> / two_pow E < two_pow (E + 53) / two_pow E"
    using ulp_exp_bounds [OF False] by (simp add: E_def divide_strict_right_mono)
  also have "\<dots> = of_int c"
    unfolding two_pow_diff c [symmetric] by simp
  finally have "n \<le> c"
    unfolding n_def by (intro round_even_le) simp
  have "0 \<le> n"
    unfolding n_def by (rule round_even_ge) simp
  have E: "- 1074 \<le> E" by (simp add: E_def ulp_exp_def)
  show ?thesis
  proof (cases "n = c")
    case True
    have "rnd x = of_int (sg * 2 ^ 52) * two_pow (E + 1)"
      unfolding r True two_pow_add by (simp add: c_def two_pow_nat)
    moreover have "\<bar>sg * (2::int) ^ 52\<bar> < 2 ^ 53"
      by (simp add: abs_mult sg(2))
    ultimately show ?thesis
      using E by (intro representableI [of "sg * 2 ^ 52" "E + 1"]) simp_all
  next
    case False
    with \<open>n \<le> c\<close> \<open>0 \<le> n\<close> have "\<bar>sg * n\<bar> < 2 ^ 53"
      by (simp add: abs_mult sg(2) c_def)
    moreover have "rnd x = of_int (sg * n) * two_pow E"
      unfolding r by simp
    ultimately show ?thesis
      using E by (intro representableI [of "sg * n" E]) simp_all
  qed
qed

lemma representable_max_float: "representable max_float"
  by (rule representableI [of "2 ^ 53 - 1" 971]) (simp_all add: max_float_def two_pow_nat)

lemma representable_two_1024: "representable (2 ^ 1024)"
  by (rule representableI [of "2 ^ 52" 972]) (simp_all add: two_pow_nat)

lemma rnd_below_overflow:
  assumes "\<bar>r\<bar> < overflow_from"
  shows "\<bar>rnd r\<bar> \<le> max_float"
proof (cases "\<bar>r\<bar> \<le> max_float")
  case True
  then show ?thesis by (intro rnd_abs_le representable_max_float)
next
  case False
  then have lo: "max_float < \<bar>r\<bar>" by simp
  then have r0: "r \<noteq> 0" by (auto simp: max_float_def)
  have "two_pow 1023 \<le> \<bar>r\<bar>" "\<bar>r\<bar> < two_pow (1023 + 1)"
    using lo assms by (simp_all add: two_pow_nat max_float_def overflow_from_def)
  then have "\<lfloor>log 2 \<bar>r\<bar>\<rfloor> = 1023"
    using r0 floor_log_eq_powr_iff [of "\<bar>r\<bar>" 2 1023] by (simp add: two_pow_def)
  then have E: "ulp_exp r = 971" by (simp add: ulp_exp_def)
  define q where "q = \<bar>r\<bar> / two_pow 971"
  have q: "2 ^ 53 - 1 < q" "q < 2 ^ 53 - 1 / 2"
    using lo assms
    by (simp_all add: q_def two_pow_nat max_float_def overflow_from_def field_simps)
  have fl: "\<lfloor>q\<rfloor> = 2 ^ 53 - 1"
    using q by (intro floor_unique) simp_all
  have "round_even q = 2 ^ 53 - 1"
    using q unfolding round_even_def fl Let_def by simp
  then have "\<bar>rnd r\<bar> = max_float"
    using r0 unfolding rnd_def E q_def [symmetric]
    by (simp add: abs_mult abs_sgn_eq two_pow_nat max_float_def)
  then show ?thesis by simp
qed

lemma rnd_from_overflow:
  assumes "overflow_from \<le> r"
  shows "2 ^ 1024 \<le> rnd r"
proof (cases "2 ^ 1024 \<le> r")
  case True
  then show ?thesis by (intro rnd_lower representable_two_1024)
next
  case False
  then have hi: "r < 2 ^ 1024" by simp
  have r0: "0 < r" using assms by (simp add: overflow_from_def)
  have "two_pow 1023 \<le> r" "r < two_pow (1023 + 1)"
    using hi assms by (simp_all add: two_pow_nat overflow_from_def)
  then have "\<lfloor>log 2 r\<rfloor> = 1023"
    using r0 floor_log_eq_powr_iff [of r 2 1023] by (simp add: two_pow_def)
  then have E: "ulp_exp r = 971" using r0 by (simp add: ulp_exp_def)
  define q where "q = r / two_pow 971"
  have q: "2 ^ 53 - 1 / 2 \<le> q" "q < 2 ^ 53"
    using hi assms
    by (simp_all add: q_def two_pow_nat overflow_from_def field_simps)
  have fl: "\<lfloor>q\<rfloor> = 2 ^ 53 - 1"
    using q by (intro floor_unique) simp_all
  have "round_even q = 2 ^ 53"
    using q unfolding round_even_def fl Let_def by simp
  then show ?thesis
    using r0 unfolding rnd_pos_eq [OF r0] E q_def [symmetric]
    by (simp add: two_pow_nat)
qed

text \<open>
  \<open>math.pi\<close> is below \<open>\<pi>\<close> by more than \<open>2\<^sup>-\<^sup>5\<^sup>4\<close>, from Machin's formula and the
  alternating series of the arc tangent; so its sine is not zero.
\<close>

lemma arctan_partial_sums:
  fixes x :: real
  assumes "0 \<le> x" "x \<le> 1"
  shows "(\<Sum>i<2*n. (-1)^i * (1 / real (i * 2 + 1) * x ^ (i * 2 + 1))) \<le> arctan x"
    and "arctan x \<le> (\<Sum>i<2*n+1. (-1)^i * (1 / real (i * 2 + 1) * x ^ (i * 2 + 1)))"
proof -
  let ?a = "\<lambda>i. 1 / real (i * 2 + 1) * x ^ (i * 2 + 1)"
  have zero: "?a \<longlonglongrightarrow> 0"
    using assms by (intro zeroseq_arctan_series) simp
  have pos: "0 \<le> ?a i" for i
    using assms by simp
  have mono: "?a (Suc i) \<le> ?a i" for i
  proof -
    have "x ^ (Suc i * 2 + 1) \<le> x ^ (i * 2 + 1)"
      using assms by (intro power_decreasing) simp_all
    moreover have "1 / real (Suc i * 2 + 1) \<le> 1 / real (i * 2 + 1)"
      by (simp add: field_simps)
    ultimately show ?thesis
      using assms by (intro mult_mono) simp_all
  qed
  have eq: "arctan x = (\<Sum>i. (-1)^i * ?a i)"
    using assms by (intro arctan_series) simp
  show "(\<Sum>i<2*n. (-1)^i * ?a i) \<le> arctan x"
    unfolding eq using summable_Leibniz'(2) [of ?a, OF zero pos mono] .
  show "arctan x \<le> (\<Sum>i<2*n+1. (-1)^i * ?a i)"
    unfolding eq using summable_Leibniz'(4) [of ?a, OF zero pos mono] .
qed

lemma pi_above_math_pi: "math_pi + 1 / 2 ^ 54 \<le> pi"
proof -
  have lo: "(\<Sum>i<2*6. (-1)^i * (1 / real (i * 2 + 1) * (1/5) ^ (i * 2 + 1))) \<le> arctan (1/5)"
    by (rule arctan_partial_sums) simp_all
  have hi: "arctan (1/239) \<le> (\<Sum>i<2*1+1. (-1)^i * (1 / real (i * 2 + 1) * (1/239) ^ (i * 2 + 1)))"
    by (rule arctan_partial_sums) simp_all
  have "pi = 16 * arctan (1/5) - 4 * arctan (1/239)"
    using machin by simp
  with lo hi have "16 * (\<Sum>i<2*6. (-1)^i * (1 / real (i * 2 + 1) * (1/5) ^ (i * 2 + 1)))
      - 4 * (\<Sum>i<2*1+1. (-1)^i * (1 / real (i * 2 + 1) * (1/239) ^ (i * 2 + 1))) \<le> pi"
    by linarith
  moreover have "math_pi + 1 / 2 ^ 54 \<le>
      16 * (\<Sum>i<2*6. (-1)^i * (1 / real (i * 2 + 1) * (1/5) ^ (i * 2 + 1)))
      - 4 * (\<Sum>i<2*1+1. (-1)^i * (1 / real (i * 2 + 1) * (1/239) ^ (i * 2 + 1)))"
    by (simp add: math_pi_def eval_nat_numeral)
  ultimately show ?thesis by linarith
qed

lemma sin_math_pi_lower: "1 / 2 ^ 55 \<le> sin math_pi"
proof -
  define d where "d = pi - math_pi"
  have d: "1 / 2 ^ 54 \<le> d" "d \<le> 1"
    using pi_above_math_pi pi_less_4 by (simp_all add: d_def math_pi_def)
  have "sin math_pi = sin d"
    by (simp add: d_def)
  moreover have "\<bar>sin d - (\<Sum>m<3. sin_coeff m * d ^ m)\<bar> \<le> inverse (fact 3) * \<bar>d\<bar> ^ 3"
    by (rule Maclaurin_sin_bound)
  then have "\<bar>sin d - d\<bar> \<le> d ^ 3 / 6"
    using d by (simp add: eval_nat_numeral sin_coeff_def)
  moreover have "d ^ 3 \<le> d"
    using d by (simp add: power_le_one_iff power3_eq_cube mult_le_one mult_left_le)
  ultimately have "d / 2 \<le> sin math_pi"
    using d by linarith
  moreover define e :: real where "e = 1 / 2 ^ 54"
  moreover have "e \<le> d"
    using d(1) by (simp add: e_def)
  ultimately have "e / 2 \<le> sin math_pi"
    by linarith
  then show ?thesis by (simp add: e_def)
qed

text \<open>The operations on float64, and the numbers that the examples below use.\<close>

lemma overflow_from_pos: "0 < overflow_from" "1 < overflow_from" "max_float < overflow_from"
  by (simp_all add: overflow_from_def max_float_def)

lemma fround_id: "representable r \<Longrightarrow> \<bar>r\<bar> \<le> max_float \<Longrightarrow> fround r = Fin r"
  using overflow_from_pos(3) by (simp add: fround_def rnd_id abs_le_iff)

lemma fround_zero [simp]: "fround 0 = Fin 0"
  using overflow_from_pos(1) by (simp add: fround_def)

lemma fround_PInf: "overflow_from \<le> r \<Longrightarrow> fround r = PInf"
  by (simp add: fround_def)

lemma fround_NInf: "r \<le> - overflow_from \<Longrightarrow> fround r = NInf"
  using overflow_from_pos(1) by (simp add: fround_def)

lemma fround_cases:
  "fround r = PInf \<and> overflow_from \<le> r
   \<or> fround r = NInf \<and> r \<le> - overflow_from
   \<or> fround r = Fin (rnd r) \<and> \<bar>r\<bar> < overflow_from \<and> isfinite (Fin (rnd r))"
  using overflow_from_pos(1) rnd_below_overflow [of r]
  by (auto simp: fround_def rnd_representable abs_less_iff)

lemma fround_nonneg:
  "0 \<le> r \<Longrightarrow> fround r = PInf \<or> (\<exists>v. fround r = Fin v \<and> 0 \<le> v \<and> isfinite (Fin v))"
  using fround_cases [of r] overflow_from_pos(1) rnd_nonneg [of r] by auto

lemma isfinite_cases: "isfinite a \<Longrightarrow> \<exists>r. a = Fin r \<and> representable r \<and> \<bar>r\<bar> \<le> max_float"
  by (cases a) auto

lemma isfinite_fround_iff: "isfinite (fround r) = (\<bar>r\<bar> < overflow_from)"
  using fround_cases [of r] overflow_from_pos(1) by (auto simp: abs_less_iff)

lemma fmul_NaN_right [simp]: "fmul a NaN = NaN"
  by (cases a) simp_all

lemma fadd_NaN_right [simp]: "fadd a NaN = NaN"
  by (cases a) simp_all

lemma fdiv_NaN_right [simp]: "fdiv a NaN = NaN"
  by (cases a) simp_all

lemma two_pow_neg: "e \<le> 0 \<Longrightarrow> two_pow e = 1 / of_int (2 ^ nat (- e))"
proof -
  assume e: "e \<le> 0"
  have "two_pow e * two_pow (- e) = 1"
    using two_pow_add [of e "- e"] by (simp add: two_pow_def)
  moreover have "two_pow (- e) = of_int (2 ^ nat (- e))"
    using e by (intro two_pow_nat) simp
  ultimately show ?thesis
    by (simp add: field_simps)
qed

lemma representable_pow2: "n \<le> 1023 \<Longrightarrow> representable (2 ^ n)"
  by (rule representableI [of 1 "int n"]) (simp_all add: two_pow_nat)

lemma representable_small:
  "representable 1" "representable (- 2)" "representable 1025" "representable (1 / 1024)"
  "representable (1 / 2 ^ 55)"
  by (rule representableI [of 1 0], simp_all add: two_pow_nat,
      rule representableI [of "- 2" 0], simp_all add: two_pow_nat,
      rule representableI [of 1025 0], simp_all add: two_pow_nat,
      rule representableI [of 1 "- 10"], simp_all add: two_pow_neg,
      rule representableI [of 1 "- 55"], simp_all add: two_pow_neg)

lemma representable_math_pi:
  "representable math_pi" "representable (- (2 * math_pi))"
  by (rule representableI [of 884279719003555 "- 48"], simp_all add: two_pow_neg math_pi_def,
      rule representableI [of "- 884279719003555" "- 47"], simp_all add: two_pow_neg)

lemma math_pi_bounds: "3 < math_pi" "math_pi < 4"
  by (simp_all add: math_pi_def)

lemma below_overflow: "\<bar>r\<bar> \<le> 2 ^ 1023 \<Longrightarrow> \<bar>r\<bar> < overflow_from"
  by (simp add: overflow_from_def)

lemma below_max_float: "\<bar>r\<bar> \<le> 2 ^ 1023 \<Longrightarrow> \<bar>r\<bar> \<le> max_float"
  by (simp add: max_float_def)

lemma fround_Fin: "\<bar>r\<bar> < overflow_from \<Longrightarrow> fround r = Fin (rnd r)"
  by (auto simp: fround_def abs_less_iff)

lemma isfinite_pow2: "n \<le> 1023 \<Longrightarrow> isfinite (Fin (2 ^ n))"
proof -
  assume n: "n \<le> 1023"
  then have "(2::real) ^ n \<le> 2 ^ 1023"
    by (intro power_increasing) simp_all
  then have "\<bar>(2::real) ^ n\<bar> \<le> max_float"
    by (intro below_max_float) simp
  with n show ?thesis
    by (simp add: representable_pow2)
qed

lemma isfinite_small:
  "isfinite (Fin 0)" "isfinite (Fin 1)" "isfinite (Fin math_pi)"
proof -
  have "\<bar>math_pi\<bar> \<le> max_float"
    by (simp add: math_pi_def max_float_def)
  then show "isfinite (Fin math_pi)"
    by (simp add: representable_math_pi)
  show "isfinite (Fin 0)" "isfinite (Fin 1)"
    by (simp_all add: representable_small max_float_def)
qed

lemma fround_small:
  "fround 1 = Fin 1" "fround (- 2) = Fin (- 2)" "fround math_pi = Fin math_pi"
  "fround (- (2 * math_pi)) = Fin (- (2 * math_pi))"
  by (rule fround_id, simp add: representable_small, simp add: max_float_def,
      rule fround_id, simp add: representable_small, simp add: max_float_def,
      rule fround_id, simp add: representable_math_pi, simp add: max_float_def math_pi_def,
      rule fround_id, simp add: representable_math_pi, simp add: max_float_def math_pi_def)

lemma square_overflows:
  "fround (2 ^ 512 * 2 ^ 512) = PInf" "fround (2 ^ 600 * 2 ^ 600) = PInf"
  by (simp_all add: fround_def overflow_from_def)

lemma phase_zero: "phase_f64 [p0, p1, Fin c, Fin 0] (Fin 0) = Fin 0"
  by (simp add: phase_f64_def)

lemma sin_cos_zero:
  "lsin correctly_rounded 0 = 0" "lcos correctly_rounded 0 = 1"
  by (simp_all add: correctly_rounded_def rnd_id representable_small)

lemmas evaluated =
  isfinite_small [simplified] isfinite_pow2 [of 60, simplified] isfinite_pow2 [of 512, simplified]
  isfinite_pow2 [of 600, simplified] isfinite_pow2 [of 1022, simplified]
  square_overflows [simplified] fround_small phase_zero sin_cos_zero

lemma product_overflows:
  "fround (- (2 * math_pi) * 2 ^ 1022) = NInf"
  "\<exists>r. fround (math_pi * 2 ^ 1022) = Fin r"
  by (simp_all add: fround_def overflow_from_def math_pi_def)

text \<open>
  The value one period further, at \<open>x = 0\<close>, \<open>p\<^sub>1 = 2\<^sup>6\<^sup>0\<close> and \<open>p\<^sub>3 = math.pi\<close>, for a library
  whose sine of \<open>math.pi\<close> is at least \<open>2\<^sup>-\<^sup>5\<^sup>5\<close>: at most \<open>1/1024\<close>.
\<close>

lemma sin_math_pi_rounded:
  "1 / 2 ^ 55 \<le> lsin correctly_rounded math_pi" "lsin correctly_rounded math_pi \<le> 1"
proof -
  show "1 / 2 ^ 55 \<le> lsin correctly_rounded math_pi"
    using rnd_lower [OF representable_small(5) sin_math_pi_lower]
    by (simp add: correctly_rounded_def)
  show "lsin correctly_rounded math_pi \<le> 1"
    using rnd_upper [OF representable_small(1), of "sin math_pi"]
    by (simp add: correctly_rounded_def)
qed

lemma phase_pi: "phase_f64 [p0, p1, Fin 1, Fin math_pi] (Fin 0) = Fin math_pi"
  by (simp add: phase_f64_def fround_small)

lemma value_after_pi:
  assumes s: "1 / 2 ^ 55 \<le> lsin lib math_pi" "lsin lib math_pi \<le> 1"
  shows "\<exists>v. baseResult_f64 lib [Fin 0] [Fin 1, Fin (2 ^ 60), Fin 1, Fin math_pi] = Inr [Fin v]
           \<and> v \<le> 1 / 1024"
proof -
  define \<sigma> where "\<sigma> = lsin lib math_pi"
  define B :: real where "B = 2 ^ 120"
  define u where "u = rnd (B * \<sigma>)"
  define w where "w = rnd (u * \<sigma>)"
  define d where "d = rnd (1 + w)"
  have \<sigma>: "1 / 2 ^ 55 \<le> \<sigma>" "\<sigma> \<le> 1" "0 \<le> \<sigma>"
  proof -
    show "1 / 2 ^ 55 \<le> \<sigma>" "\<sigma> \<le> 1"
      using s by (simp_all add: \<sigma>_def)
    have "(0::real) \<le> 1 / 2 ^ 55" by simp
    from this s(1) show "0 \<le> \<sigma>"
      unfolding \<sigma>_def by (rule order_trans)
  qed
  have B: "0 \<le> B" "representable B" "B \<le> 2 ^ 1023" "B * (1 / 2 ^ 55) = 2 ^ 65"
    using representable_pow2 [of 120] by (simp_all add: B_def)
  have sq: "fround (2 ^ 60 * 2 ^ 60) = Fin B"
    using fround_id [OF B(2)] B(1,3) below_max_float [of B] by (simp add: B_def)
  have r1: "2 ^ 65 \<le> B * \<sigma>" "B * \<sigma> \<le> B"
    using mult_left_mono [OF \<sigma>(1) B(1)] mult_left_mono [OF \<sigma>(2) B(1)] B(4) by simp_all
  have u: "2 ^ 65 \<le> u" "u \<le> B"
    unfolding u_def
    using rnd_lower [OF representable_pow2 [of 65] r1(1)] rnd_upper [OF B(2) r1(2)] by simp_all
  have f1: "fround (B * \<sigma>) = Fin u"
    unfolding u_def using r1 B(3) by (intro fround_Fin below_overflow) simp
  have "2 ^ 65 * (1 / 2 ^ 55) \<le> u * \<sigma>"
    using u(1) \<sigma>(1) by (intro mult_mono) simp_all
  then have r2: "2 ^ 10 \<le> u * \<sigma>"
    by simp
  have "u * \<sigma> \<le> B * 1"
    using u \<sigma> B(1) by (intro mult_mono) simp_all
  then have r2': "u * \<sigma> \<le> B"
    by simp
  have w: "2 ^ 10 \<le> w" "w \<le> B"
    unfolding w_def
    using rnd_lower [OF representable_pow2 [of 10] r2] rnd_upper [OF B(2) r2'] by simp_all
  have f2: "fround (u * \<sigma>) = Fin w"
    unfolding w_def using r2 r2' B(3) by (intro fround_Fin below_overflow) simp
  have d: "1025 \<le> d"
    unfolding d_def using w(1) by (intro rnd_lower representable_small) simp
  have f3: "fround (1 + w) = Fin d"
    unfolding d_def using w B(3) by (intro fround_Fin below_overflow) (simp add: B_def)
  have q: "0 \<le> 1 / d" "1 / d \<le> 1 / 1024"
    using d by (simp_all add: field_simps)
  have f4: "fround (1 / d) = Fin (rnd (1 / d))"
    using q by (intro fround_Fin below_overflow) simp
  have v: "rnd (1 / d) \<le> 1 / 1024"
    using q(2) by (intro rnd_upper representable_small)
  have "baseResult_f64 lib [Fin 0] [Fin 1, Fin (2 ^ 60), Fin 1, Fin math_pi]
      = Inr [Fin (rnd (1 / d))]"
    using d sq
    by (simp add: baseResult_f64_def phase_pi \<sigma>_def [symmetric] f1 f2 f3 f4)
  with v show ?thesis by blast
qed

text \<open>
  \<open>math.pi\<close> is below \<open>\<pi>\<close> by at most \<open>2\<^sup>-\<^sup>5\<^sup>2\<close>; numbers next to 1 round to 1. So the
  correctly rounded sine of \<open>math.pi / 2\<close> is 1, and that of \<open>math.pi\<close> is too small to
  be seen in \<open>1 + 900 s\<^sup>2\<close>.
\<close>

lemma pi_below_math_pi: "pi \<le> math_pi + 1 / 2 ^ 52"
proof -
  have hi: "arctan (1/5) \<le> (\<Sum>i<2*6+1. (-1)^i * (1 / real (i * 2 + 1) * (1/5) ^ (i * 2 + 1)))"
    by (rule arctan_partial_sums) simp_all
  have lo: "(\<Sum>i<2*2. (-1)^i * (1 / real (i * 2 + 1) * (1/239) ^ (i * 2 + 1))) \<le> arctan (1/239)"
    by (rule arctan_partial_sums) simp_all
  have "pi = 16 * arctan (1/5) - 4 * arctan (1/239)"
    using machin by simp
  with lo hi have "pi \<le> 16 * (\<Sum>i<2*6+1. (-1)^i * (1 / real (i * 2 + 1) * (1/5) ^ (i * 2 + 1)))
      - 4 * (\<Sum>i<2*2. (-1)^i * (1 / real (i * 2 + 1) * (1/239) ^ (i * 2 + 1)))"
    by linarith
  moreover have "16 * (\<Sum>i<2*6+1. (-1)^i * (1 / real (i * 2 + 1) * (1/5) ^ (i * 2 + 1)))
      - 4 * (\<Sum>i<2*2. (-1)^i * (1 / real (i * 2 + 1) * (1/239) ^ (i * 2 + 1)))
      \<le> math_pi + 1 / 2 ^ 52"
    by (simp add: math_pi_def eval_nat_numeral)
  ultimately show ?thesis by linarith
qed

lemma rnd_one_above:
  assumes "1 \<le> y" "y < 1 + 1 / 2 ^ 53"
  shows "rnd y = 1"
proof -
  have y0: "0 < y" using assms by simp
  have "two_pow 0 \<le> y" "y < two_pow (0 + 1)"
    using assms by (simp_all add: two_pow_def)
  then have "\<lfloor>log 2 y\<rfloor> = 0"
    using y0 floor_log_eq_powr_iff [of y 2 0] by (simp add: two_pow_def)
  then have E: "ulp_exp y = - 52"
    using y0 by (simp add: ulp_exp_def)
  define q where "q = y / two_pow (- 52)"
  have q: "2 ^ 52 \<le> q" "q < 2 ^ 52 + 1 / 2"
    using assms by (simp_all add: q_def two_pow_neg field_simps)
  have fl: "\<lfloor>q\<rfloor> = 2 ^ 52"
    using q by (intro floor_unique) simp_all
  have "round_even q = 2 ^ 52"
    using q unfolding round_even_def fl Let_def by simp
  then show ?thesis
    unfolding rnd_pos_eq [OF y0] E q_def [symmetric] by (simp add: two_pow_neg)
qed

lemma rnd_one_below:
  assumes "1 - 1 / 2 ^ 54 < y" "y \<le> 1"
  shows "rnd y = 1"
proof (cases "y = 1")
  case True
  then show ?thesis by (simp add: rnd_id representable_small)
next
  case False
  with assms have y1: "y < 1" by simp
  have "(1::real) / 2 ^ 54 \<le> 1 / 2"
    by simp
  with assms(1) have half: "1 / 2 \<le> y"
    by linarith
  then have y0: "0 < y"
    by simp
  from half have "two_pow (- 1) \<le> y" "y < two_pow (- 1 + 1)"
    using y1 by (simp_all add: two_pow_def powr_minus_divide)
  then have "\<lfloor>log 2 y\<rfloor> = - 1"
    using y0 floor_log_eq_powr_iff [of y 2 "- 1"] by (simp add: two_pow_def)
  then have E: "ulp_exp y = - 53"
    using y0 by (simp add: ulp_exp_def)
  define q where "q = y / two_pow (- 53)"
  have q: "2 ^ 53 - 1 / 2 < q" "q < 2 ^ 53"
    using assms(1) y1 by (simp_all add: q_def two_pow_neg field_simps)
  have fl: "\<lfloor>q\<rfloor> = 2 ^ 53 - 1"
    using q by (intro floor_unique) simp_all
  have "round_even q = 2 ^ 53"
    using q unfolding round_even_def fl Let_def by simp
  then show ?thesis
    unfolding rnd_pos_eq [OF y0] E q_def [symmetric] by (simp add: two_pow_neg)
qed


lemma math_pi_gap: "1 / 2 ^ 54 \<le> pi - math_pi" "pi - math_pi \<le> 1 / 2 ^ 52"
  using pi_above_math_pi pi_below_math_pi by simp_all

lemma sin_math_pi_upper: "sin math_pi \<le> 1 / 2 ^ 52"
proof -
  define d where "d = pi - math_pi"
  have d: "0 \<le> d" "d \<le> 1 / 2 ^ 52"
    using math_pi_gap by (simp_all add: d_def)
  have "sin math_pi = sin d"
    by (simp add: d_def)
  also have "\<dots> \<le> d"
    using d(1) by (rule sin_x_le_x)
  finally show ?thesis
    using d(2) by simp
qed

lemma sin_half_math_pi: "1 - 1 / 2 ^ 54 < sin (math_pi / 2)" "sin (math_pi / 2) \<le> 1"
proof -
  define u where "u = (pi - math_pi) / 4"
  have u: "\<bar>u\<bar> \<le> 1 / 2 ^ 54"
    using math_pi_gap by (simp add: u_def)
  have e: "math_pi / 2 = pi / 2 - 2 * u"
    unfolding u_def by (simp add: field_simps)
  have "sin (math_pi / 2) = cos (2 * u)"
    unfolding e by (simp add: sin_diff)
  also have "\<dots> = 1 - 2 * (sin u)\<^sup>2"
    by (rule cos_double_sin)
  finally have eq: "sin (math_pi / 2) = 1 - 2 * (sin u)\<^sup>2" .
  have "\<bar>sin u\<bar> \<le> 1 / 2 ^ 54"
    using abs_sin_x_le_abs_x [of u] u by simp
  then have "(sin u)\<^sup>2 \<le> (1 / 2 ^ 54)\<^sup>2"
    by (metis abs_ge_zero power2_abs power_mono)
  also have "\<dots> < 1 / 2 ^ 55"
    by (simp add: power2_eq_square)
  finally have "2 * (sin u)\<^sup>2 < 1 / 2 ^ 54"
    by simp
  with eq show "1 - 1 / 2 ^ 54 < sin (math_pi / 2)"
    by simp
  show "sin (math_pi / 2) \<le> 1"
    by simp
qed


lemma sin_rounded:
  "lsin correctly_rounded (math_pi / 2) = 1"
  "0 \<le> lsin correctly_rounded math_pi" "lsin correctly_rounded math_pi \<le> 1 / 2 ^ 52"
proof -
  show "lsin correctly_rounded (math_pi / 2) = 1"
    using rnd_one_below [OF sin_half_math_pi] by (simp add: correctly_rounded_def)
  have "(0::real) \<le> 1 / 2 ^ 55"
    by simp
  from this sin_math_pi_rounded(1) show "0 \<le> lsin correctly_rounded math_pi"
    by (rule order_trans)
  have "representable (1 / 2 ^ 52)"
    by (rule representableI [of 1 "- 52"]) (simp_all add: two_pow_neg)
  from rnd_upper [OF this sin_math_pi_upper]
  show "lsin correctly_rounded math_pi \<le> 1 / 2 ^ 52"
    by (simp add: correctly_rounded_def)
qed

lemma fround_scenario:
  "fround (math_pi / 2) = Fin (math_pi / 2)" "fround 900 = Fin 900" "fround 901 = Fin 901"
  "fround (1 / 901) = Fin (rnd (1 / 901))"
proof -
  have "representable (math_pi / 2)"
    by (rule representableI [of 884279719003555 "- 49"]) (simp_all add: two_pow_neg math_pi_def)
  moreover have "\<bar>math_pi / 2\<bar> \<le> max_float"
    by (simp add: math_pi_def max_float_def)
  ultimately show "fround (math_pi / 2) = Fin (math_pi / 2)"
    by (rule fround_id)
  have "representable 900" "representable 901"
    by (rule representableI [of 900 0], simp_all add: two_pow_nat,
        rule representableI [of 901 0], simp_all add: two_pow_nat)
  then show "fround 900 = Fin 900" "fround 901 = Fin 901"
    by (simp_all add: fround_id max_float_def)
  show "fround (1 / 901) = Fin (rnd (1 / 901))"
    by (intro fround_Fin below_overflow) simp
qed

lemma value_at_math_pi:
  assumes s: "0 \<le> lsin lib math_pi" "lsin lib math_pi \<le> 1 / 2 ^ 52"
  shows "fdiv (Fin 1) (fadd (Fin 1) (fmul (fmul (Fin 900) (Fin (lsin lib math_pi)))
           (Fin (lsin lib math_pi)))) = Fin 1"
proof -
  define \<sigma> where "\<sigma> = lsin lib math_pi"
  define u where "u = rnd (900 * \<sigma>)"
  define w where "w = rnd (u * \<sigma>)"
  have \<sigma>: "0 \<le> \<sigma>" "\<sigma> \<le> 1 / 2 ^ 52"
    using s by (simp_all add: \<sigma>_def)
  have r42: "representable (1 / 2 ^ 42)" and r94: "representable (1 / 2 ^ 94)"
    by (rule representableI [of 1 "- 42"], simp_all add: two_pow_neg,
        rule representableI [of 1 "- 94"], simp_all add: two_pow_neg)
  have p1: "0 \<le> 900 * \<sigma>" "900 * \<sigma> \<le> 1 / 2 ^ 42"
    using \<sigma> by simp_all
  have u: "0 \<le> u" "u \<le> 1 / 2 ^ 42"
    unfolding u_def using rnd_nonneg [OF p1(1)] rnd_upper [OF r42 p1(2)] by simp_all
  have f1: "fround (900 * \<sigma>) = Fin u"
    unfolding u_def using p1 by (intro fround_Fin below_overflow) simp
  have "u * \<sigma> \<le> (1 / 2 ^ 42) * (1 / 2 ^ 52)"
    using u \<sigma> by (intro mult_mono) simp_all
  then have p2: "0 \<le> u * \<sigma>" "u * \<sigma> \<le> 1 / 2 ^ 94"
    using u(1) \<sigma>(1) by simp_all
  have w: "0 \<le> w" "w \<le> 1 / 2 ^ 94"
    unfolding w_def using rnd_nonneg [OF p2(1)] rnd_upper [OF r94 p2(2)] by simp_all
  have f2: "fround (u * \<sigma>) = Fin w"
    unfolding w_def using p2 by (intro fround_Fin below_overflow) simp
  have "(1::real) / 2 ^ 94 < 1 / 2 ^ 53"
    by simp
  with w have near: "1 \<le> 1 + w" "1 + w < 1 + 1 / 2 ^ 53"
    by simp_all
  have "fround (1 + w) = Fin (rnd (1 + w))"
    using near by (intro fround_Fin below_overflow) simp
  then have f3: "fround (1 + w) = Fin 1"
    using rnd_one_above [OF near] by simp
  show ?thesis
    unfolding \<sigma>_def [symmetric] by (simp add: f1 f2 f3 fround_small)
qed

subsection \<open>Value\<close>

text \<open>
  C1, in exact arithmetic: with every float64 read as the real number it holds,
  \<open>math.pi\<close> as \<open>\<pi>\<close> and every operation exact, \<open>baseResult\<close> returns for a parameter
  vector of length 4 and any samples, elementwise,
  \<open>p\<^sub>0 / (1 + p\<^sub>1\<^sup>2 sin\<^sup>2(\<pi> x p\<^sub>2 + p\<^sub>3))\<close>.
\<close>

theorem baseResult_closed_form:
  "length p = 4 \<Longrightarrow>
   baseResult xdata p =
     Inr (map (\<lambda>x. p ! 0 / (1 + (p ! 1)\<^sup>2 * (sin (pi * x * p ! 2 + p ! 3))\<^sup>2)) xdata)"
  by (simp add: baseResult_def power2_eq_square mult.assoc)

theorem baseResult_closed_form_witness:
  "baseResult [0, 1/2] [1, 30, 1, 0] = Inr [1, 1 / 901]"
  using baseResult_closed_form [of "[1, 30, 1, 0]" "[0, 1/2]"]
  by simp

text \<open>
  C1 as stated, for the value that the code returns, fails: at \<open>p = [1, 2\<^sup>5\<^sup>1\<^sup>2, 1, 0]\<close> and
  \<open>x = [0]\<close>, all finite, the product \<open>p\<^sub>1 * p\<^sub>1\<close> is \<open>inf\<close>, the sine is \<open>0\<close>,
  \<open>inf * 0\<close> is NaN and the value is \<open>[nan]\<close>, where the closed form is 1. Only
  \<open>sin 0 = 0\<close> is used of the library.
\<close>

theorem baseResult_f64_not_closed_form:
  "list_all isfinite [Fin 1, Fin (2 ^ 512), Fin 1, Fin 0] \<and> list_all isfinite [Fin 0]
   \<and> baseResult_f64 correctly_rounded [Fin 0] [Fin 1, Fin (2 ^ 512), Fin 1, Fin 0] = Inr [NaN]
   \<and> (1::real) / (1 + (2 ^ 512)\<^sup>2 * (sin (pi * 0 * 1 + 0))\<^sup>2) = 1"
  by (simp add: baseResult_f64_def evaluated)

text \<open>
  C6, as far as it holds. In float64 the value does not change when \<open>p\<^sub>1\<close> is negated:
  \<open>p\<^sub>1\<close> enters by the product \<open>p\<^sub>1 * p\<^sub>1\<close> only, which is the same float64 for \<open>-p\<^sub>1\<close>.
  In exact arithmetic the value has period \<open>\<pi>\<close> in the phase \<open>p\<^sub>3\<close> as well.
\<close>

theorem baseResult_symmetry:
  "baseResult_f64 lib xs [q0, fneg q1, q2, q3] = baseResult_f64 lib xs [q0, q1, q2, q3]
   \<and> baseResult xdata [p0, - p1, p2, p3] = baseResult xdata [p0, p1, p2, p3]
   \<and> baseResult xdata [p0, p1, p2, p3 + pi] = baseResult xdata [p0, p1, p2, p3]"
proof -
  have "fmul (fneg q1) (fneg q1) = fmul q1 q1"
    by (cases q1) simp_all
  then have "baseResult_f64 lib xs [q0, fneg q1, q2, q3] = baseResult_f64 lib xs [q0, q1, q2, q3]"
    by (simp add: baseResult_f64_def phase_f64_def)
  then show ?thesis
    by (simp add: baseResult_def add.assoc [symmetric])
qed

text \<open>
  C6 as stated fails in float64 for the period: at \<open>p = [1, 2\<^sup>6\<^sup>0, 1, 0]\<close> and \<open>x = [0]\<close>
  the value is \<open>[1]\<close>; with \<open>p\<^sub>3 + math.pi\<close>, which is \<open>math.pi\<close>, the sine is the float64
  nearest to \<open>sin(math.pi)\<close>, about \<open>1.2 * 10\<^sup>-\<^sup>1\<^sup>6\<close> and not \<open>0\<close>, and the value is below
  \<open>1/1024\<close>.
\<close>

theorem baseResult_f64_not_periodic:
  "isfinite (Fin 0) \<and> list_all isfinite [Fin 1, Fin (2 ^ 60), Fin 1, Fin 0]
   \<and> fadd (Fin 0) (Fin math_pi) = Fin math_pi
   \<and> baseResult_f64 correctly_rounded [Fin 0] [Fin 1, Fin (2 ^ 60), Fin 1, Fin 0] = Inr [Fin 1]
   \<and> (\<exists>v. baseResult_f64 correctly_rounded [Fin 0]
               [Fin 1, Fin (2 ^ 60), Fin 1, fadd (Fin 0) (Fin math_pi)] = Inr [Fin v]
            \<and> v \<le> 1 / 1024)
   \<and> baseResult_f64 correctly_rounded [Fin 0]
         [Fin 1, Fin (2 ^ 60), Fin 1, fadd (Fin 0) (Fin math_pi)]
       \<noteq> baseResult_f64 correctly_rounded [Fin 0] [Fin 1, Fin (2 ^ 60), Fin 1, Fin 0]"
proof -
  have sq: "fround (2 ^ 60 * 2 ^ 60) = Fin (2 ^ 120)"
    using fround_id [OF representable_pow2 [of 120]] below_max_float [of "2 ^ 120"] by simp
  have one: "baseResult_f64 correctly_rounded [Fin 0] [Fin 1, Fin (2 ^ 60), Fin 1, Fin 0]
      = Inr [Fin 1]"
    using sq by (simp add: baseResult_f64_def evaluated)
  from value_after_pi [OF sin_math_pi_rounded] obtain v where
    v: "baseResult_f64 correctly_rounded [Fin 0] [Fin 1, Fin (2 ^ 60), Fin 1, Fin math_pi]
          = Inr [Fin v]" "v \<le> 1 / 1024"
    by blast
  have "fadd (Fin 0) (Fin math_pi) = Fin math_pi"
    by (simp add: fround_small)
  with one v show ?thesis
    by (auto simp: evaluated)
qed

text \<open>
  C8. At \<open>p = [1.0, 30.0, 1.0, 0.0]\<close> and \<open>x = [0, 0.5, 1.0]\<close> the value is
  \<open>[1.0, 1/901, 1.0]\<close>.
\<close>

theorem baseResult_scenario:
  "baseResult [0, 0.5, 1.0] [1.0, 30.0, 1.0, 0.0] = Inr [1.0, 1 / 901, 1.0]"
  by (simp add: baseResult_def)

text \<open>
  The same input in float64, with the correctly rounded sine: the phases are \<open>0\<close>,
  \<open>math.pi / 2\<close> and \<open>math.pi\<close>, and the value is \<open>1\<close>, the float64 nearest to \<open>1/901\<close>,
  and \<open>1\<close>.
\<close>

lemma baseResult_f64_scenario:
  "baseResult_f64 correctly_rounded [Fin 0, Fin (1/2), Fin 1] [Fin 1, Fin 30, Fin 1, Fin 0]
   = Inr [Fin 1, Fin (rnd (1 / 901)), Fin 1]"
proof -
  have ph: "phase_f64 [p0, p1, Fin 1, Fin 0] (Fin 0) = Fin 0"
    "phase_f64 [p0, p1, Fin 1, Fin 0] (Fin (1/2)) = Fin (math_pi / 2)"
    "phase_f64 [p0, p1, Fin 1, Fin 0] (Fin 1) = Fin math_pi" for p0 p1
    by (simp_all add: phase_f64_def fround_small fround_scenario)
  show ?thesis
    using value_at_math_pi [OF sin_rounded(2,3)]
    by (simp add: baseResult_f64_def ph sin_cos_zero sin_rounded(1) fround_small fround_scenario)
qed

subsection \<open>Bounds of the value\<close>

lemma fround_valid:
  "isfinite (fround r) \<or> fround r = PInf \<or> fround r = NInf \<or> fround r = NaN"
  using fround_cases [of r] by auto

lemma fadd_valid:
  "isfinite (fadd a b) \<or> fadd a b = PInf \<or> fadd a b = NInf \<or> fadd a b = NaN"
  by (cases a; cases b) (simp_all add: fround_valid)

lemma phase_valid:
  "isfinite (phase_f64 p v) \<or> phase_f64 p v = PInf \<or> phase_f64 p v = NInf
   \<or> phase_f64 p v = NaN"
  unfolding phase_f64_def by (rule fadd_valid)

lemma square_shape:
  "fmul b b = NaN \<or> fmul b b = PInf \<or> (\<exists>q. fmul b b = Fin q \<and> 0 \<le> q \<and> isfinite (Fin q))"
proof (cases b)
  case (Fin \<beta>)
  then show ?thesis using fround_nonneg [of "\<beta> * \<beta>"] by auto
qed simp_all

lemma square_finite:
  "isfinite b \<Longrightarrow> fmul b b = PInf \<or> (\<exists>q. fmul b b = Fin q \<and> 0 \<le> q \<and> isfinite (Fin q))"
proof -
  assume "isfinite b"
  then obtain \<beta> where "b = Fin \<beta>"
    using isfinite_cases by blast
  then show ?thesis
    using fround_nonneg [of "\<beta> * \<beta>"] by auto
qed

lemma prod_cases:
  assumes q: "0 \<le> q"
  shows "fmul (fmul (Fin q) (Fin \<sigma>)) (Fin \<sigma>) = PInf
       \<or> (\<exists>w. fmul (fmul (Fin q) (Fin \<sigma>)) (Fin \<sigma>) = Fin w \<and> 0 \<le> w)"
proof -
  consider "fround (q * \<sigma>) = PInf" "overflow_from \<le> q * \<sigma>"
    | "fround (q * \<sigma>) = NInf" "q * \<sigma> \<le> - overflow_from"
    | "fround (q * \<sigma>) = Fin (rnd (q * \<sigma>))"
    using fround_cases [of "q * \<sigma>"] by blast
  then show ?thesis
  proof cases
    case 1
    have "0 < \<sigma>"
      using 1(2) q overflow_from_pos(1) by (smt (verit) mult_nonneg_nonpos)
    with 1(1) show ?thesis by simp
  next
    case 2
    have "\<sigma> < 0"
      using 2(2) q overflow_from_pos(1) by (smt (verit) mult_nonneg_nonneg)
    with 2(1) show ?thesis by simp
  next
    case 3
    have "0 \<le> rnd (q * \<sigma>) * \<sigma>"
    proof (cases "0 \<le> \<sigma>")
      case True
      with q have "0 \<le> rnd (q * \<sigma>)" by (intro rnd_nonneg) simp
      with True show ?thesis by simp
    next
      case False
      with q have "rnd (q * \<sigma>) \<le> 0"
        by (intro rnd_nonpos) (simp add: mult_nonneg_nonpos)
      with False show ?thesis by (simp add: mult_nonpos_nonpos)
    qed
    from fround_nonneg [OF this] 3 show ?thesis by auto
  qed
qed

lemma prod_inf:
  "\<sigma> \<noteq> 0 \<Longrightarrow> fmul (fmul PInf (Fin \<sigma>)) (Fin \<sigma>) = PInf"
  "fmul (fmul PInf (Fin 0)) (Fin 0) = NaN"
  by simp_all

lemma prod_shape:
  "fmul (fmul (fmul b b) s) s = NaN \<or> fmul (fmul (fmul b b) s) s = PInf
   \<or> (\<exists>r. fmul (fmul (fmul b b) s) s = Fin r \<and> 0 \<le> r)"
proof -
  consider "fmul b b = NaN" | "fmul b b = PInf" | q where "fmul b b = Fin q" "0 \<le> q"
    using square_shape [of b] by blast
  then show ?thesis
  proof cases
    case 1 then show ?thesis by simp
  next
    case 2 then show ?thesis by (cases s) auto
  next
    case 3
    show ?thesis
    proof (cases s)
      case (Fin \<sigma>)
      then show ?thesis using prod_cases [OF 3(2), of \<sigma>] 3(1) by auto
    qed (use 3 in auto)
  qed
qed

lemma denom_cases:
  assumes "t = PInf \<or> (\<exists>w. t = Fin w \<and> 0 \<le> w)"
  shows "fadd (Fin 1) t = PInf \<or> (\<exists>d. fadd (Fin 1) t = Fin d \<and> 1 \<le> d)"
  using assms
proof
  assume "t = PInf" then show ?thesis by simp
next
  assume "\<exists>w. t = Fin w \<and> 0 \<le> w"
  then obtain w where w: "t = Fin w" "0 \<le> w" by blast
  have "1 \<le> rnd (1 + w)"
    using w(2) by (intro rnd_lower representable_small) simp
  then show ?thesis
    using fround_cases [of "1 + w"] w overflow_from_pos(1) by auto
qed

lemma denom_shape:
  "fadd (Fin 1) (fmul (fmul (fmul b b) s) s) = NaN
   \<or> fadd (Fin 1) (fmul (fmul (fmul b b) s) s) = PInf
   \<or> (\<exists>d. fadd (Fin 1) (fmul (fmul (fmul b b) s) s) = Fin d \<and> 1 \<le> d)"
proof (cases "fmul (fmul (fmul b b) s) s = NaN")
  case True then show ?thesis by simp
next
  case False
  with prod_shape [of b s] denom_cases [of "fmul (fmul (fmul b b) s) s"] show ?thesis
    by blast
qed

lemma representable_abs: "representable a \<Longrightarrow> representable \<bar>a\<bar>"
  by (simp add: abs_if representable_minus)

lemma abs_div_le: "1 \<le> d \<Longrightarrow> \<bar>a / d\<bar> \<le> \<bar>a\<bar>" for a d :: real
proof -
  assume d: "1 \<le> d"
  then have "\<bar>a / d\<bar> = \<bar>a\<bar> / d" by simp
  also have "\<dots> \<le> \<bar>a\<bar> / 1"
    using d by (intro divide_left_mono) auto
  finally show ?thesis by simp
qed

lemma quot_cases:
  assumes a: "isfinite (Fin a)" and D: "D = PInf \<or> (\<exists>d. D = Fin d \<and> 1 \<le> d)"
  shows "\<exists>v. fdiv (Fin a) D = Fin v \<and> isfinite (Fin v) \<and> \<bar>v\<bar> \<le> \<bar>a\<bar>"
  using D
proof
  assume "D = PInf"
  then show ?thesis using isfinite_small(1) by simp
next
  assume "\<exists>d. D = Fin d \<and> 1 \<le> d"
  then obtain d where d: "D = Fin d" "1 \<le> d" by blast
  from a have ra: "representable \<bar>a\<bar>" "\<bar>a\<bar> \<le> max_float"
    by (simp_all add: representable_abs)
  have le: "\<bar>a / d\<bar> \<le> \<bar>a\<bar>"
    using d(2) by (rule abs_div_le)
  with ra(2) overflow_from_pos(3) have "\<bar>a / d\<bar> < overflow_from"
    by simp
  then have "fround (a / d) = Fin (rnd (a / d))"
    by (rule fround_Fin)
  moreover have "\<bar>rnd (a / d)\<bar> \<le> \<bar>a\<bar>"
    using ra(1) le by (rule rnd_abs_le)
  ultimately show ?thesis
    using d ra(2) by (simp add: rnd_representable)
qed

text \<open>One element of the value, for a finite \<open>p\<^sub>0\<close> and a finite \<open>p\<^sub>1\<close>.\<close>

lemma value_cases:
  assumes a: "isfinite (Fin a)" and b: "isfinite b"
    and ph: "isfinite ph \<or> ph = PInf \<or> ph = NInf \<or> ph = NaN"
    and y: "y = fdiv (Fin a) (fadd (Fin 1) (fmul (fmul (fmul b b) (fsin lib ph)) (fsin lib ph)))"
  shows "if isfinite ph \<and> (isfinite (fmul b b) \<or> fsin lib ph \<noteq> Fin 0)
         then \<exists>v. y = Fin v \<and> isfinite y \<and> 0 \<le> \<bar>v\<bar> \<and> \<bar>v\<bar> \<le> \<bar>a\<bar>
         else y = NaN"
proof (cases "isfinite ph")
  case False
  with ph have "fsin lib ph = NaN" by auto
  with False y show ?thesis by simp
next
  case True
  then obtain \<phi> where \<phi>: "ph = Fin \<phi>"
    using isfinite_cases by blast
  define \<sigma> where "\<sigma> = lsin lib \<phi>"
  have s: "fsin lib ph = Fin \<sigma>"
    by (simp add: \<phi> \<sigma>_def)
  let ?t = "fmul (fmul (fmul b b) (Fin \<sigma>)) (Fin \<sigma>)"
  have fin: "\<exists>v. y = Fin v \<and> isfinite y \<and> 0 \<le> \<bar>v\<bar> \<and> \<bar>v\<bar> \<le> \<bar>a\<bar>"
    if t: "?t = PInf \<or> (\<exists>w. ?t = Fin w \<and> 0 \<le> w)"
  proof -
    from quot_cases [OF a denom_cases [OF t]] obtain v where
      "fdiv (Fin a) (fadd (Fin 1) ?t) = Fin v" "isfinite (Fin v)" "\<bar>v\<bar> \<le> \<bar>a\<bar>"
      by blast
    then show ?thesis
      unfolding y s by (intro exI [of _ v]) simp
  qed
  from square_finite [OF b] show ?thesis
  proof
    assume inf: "fmul b b = PInf"
    show ?thesis
    proof (cases "\<sigma> = 0")
      case True
      then have "y = NaN"
        unfolding y s inf by simp
      then show ?thesis
        using True inf s by simp
    next
      case False
      have "?t = PInf"
        unfolding inf by (rule prod_inf(1) [OF False])
      from fin [OF disjI1 [OF this]] show ?thesis
        using False s \<open>isfinite ph\<close> by simp
    qed
  next
    assume "\<exists>q. fmul b b = Fin q \<and> 0 \<le> q \<and> isfinite (Fin q)"
    then obtain q where q: "fmul b b = Fin q" "0 \<le> q" "isfinite (Fin q)" by blast
    have "?t = PInf \<or> (\<exists>w. ?t = Fin w \<and> 0 \<le> w)"
      unfolding q(1) by (rule prod_cases [OF q(2)])
    from fin [OF this] show ?thesis
      using q(1,3) \<open>isfinite ph\<close> by simp
  qed
qed

lemma baseResult_f64_elements:
  assumes len: "length p = 4" and p: "list_all isfinite p"
  shows "\<exists>ys a. baseResult_f64 lib xdata p = Inr ys \<and> length ys = length xdata \<and> p ! 0 = Fin a
           \<and> (\<forall>i < length xdata.
                 if isfinite (phase_f64 p (xdata ! i))
                    \<and> (isfinite (fmul (p ! 1) (p ! 1)) \<or> fsin lib (phase_f64 p (xdata ! i)) \<noteq> Fin 0)
                 then \<exists>v. ys ! i = Fin v \<and> isfinite (ys ! i) \<and> 0 \<le> \<bar>v\<bar> \<and> \<bar>v\<bar> \<le> \<bar>a\<bar>
                 else ys ! i = NaN)"
proof -
  from len p have "isfinite (p ! 0)" and b: "isfinite (p ! 1)"
    by (simp_all add: list_all_length)
  then obtain a where a: "p ! 0 = Fin a" "isfinite (Fin a)"
    using isfinite_cases by (metis isfinite.simps(1))
  let ?f = "\<lambda>ph. fdiv (Fin a)
      (fadd (Fin 1) (fmul (fmul (fmul (p ! 1) (p ! 1)) (fsin lib ph)) (fsin lib ph)))"
  let ?ys = "map (\<lambda>v. ?f (phase_f64 p v)) xdata"
  have ev: "baseResult_f64 lib xdata p = Inr ?ys"
    using len by (simp add: baseResult_f64_def o_def a(1))
  have "if isfinite (phase_f64 p (xdata ! i))
           \<and> (isfinite (fmul (p ! 1) (p ! 1)) \<or> fsin lib (phase_f64 p (xdata ! i)) \<noteq> Fin 0)
        then \<exists>v. ?ys ! i = Fin v \<and> isfinite (?ys ! i) \<and> 0 \<le> \<bar>v\<bar> \<and> \<bar>v\<bar> \<le> \<bar>a\<bar>
        else ?ys ! i = NaN" if i: "i < length xdata" for i
  proof -
    have nth: "?ys ! i = ?f (phase_f64 p (xdata ! i))"
      using i by simp
    from value_cases [OF a(2) b phase_valid nth]
    show ?thesis .
  qed
  then have "\<forall>i < length xdata.
      if isfinite (phase_f64 p (xdata ! i))
           \<and> (isfinite (fmul (p ! 1) (p ! 1)) \<or> fsin lib (phase_f64 p (xdata ! i)) \<noteq> Fin 0)
        then \<exists>v. ?ys ! i = Fin v \<and> isfinite (?ys ! i) \<and> 0 \<le> \<bar>v\<bar> \<and> \<bar>v\<bar> \<le> \<bar>a\<bar>
        else ?ys ! i = NaN"
    by blast
  moreover have "length ?ys = length xdata"
    by simp
  ultimately show ?thesis
    using ev a(1) by blast
qed

lemma baseResult_abs_le:
  assumes "baseResult xdata p = Inr zs" "z \<in> set zs"
  shows "\<bar>z\<bar> \<le> \<bar>p ! 0\<bar>"
proof -
  let ?f = "\<lambda>x. p ! 0
      / (1 + p ! 1 * p ! 1 * sin (pi * x * p ! 2 + p ! 3) * sin (pi * x * p ! 2 + p ! 3))"
  have "zs = map ?f xdata"
    using assms(1) by (simp add: baseResult_def Let_def o_def split: if_splits)
  with assms(2) have "z \<in> ?f ` set xdata"
    by simp
  then obtain x where
    z: "z = p ! 0 / (1 + p ! 1 * p ! 1 * sin (pi * x * p ! 2 + p ! 3) * sin (pi * x * p ! 2 + p ! 3))"
    by blast
  have "0 \<le> (p ! 1 * sin (pi * x * p ! 2 + p ! 3)) * (p ! 1 * sin (pi * x * p ! 2 + p ! 3))"
    by simp
  then have "1 \<le> 1 + p ! 1 * p ! 1 * sin (pi * x * p ! 2 + p ! 3) * sin (pi * x * p ! 2 + p ! 3)"
    by (simp add: mult_ac)
  then show ?thesis
    unfolding z by (rule abs_div_le)
qed

text \<open>
  C5, as the code has it. For real \<open>p\<^sub>1\<close> and \<open>s\<close> the denominator \<open>1 + p\<^sub>1\<^sup>2 s\<^sup>2\<close> is at
  least 1, and in exact arithmetic the value is bounded by \<open>|p\<^sub>0|\<close>. In float64, with any
  library for the sine, the computed denominator is never zero: it is a number from 1 on,
  \<open>+inf\<close> or NaN. For finite parameters and samples an element of the value is finite
  and bounded by \<open>|p\<^sub>0|\<close> when the computed phase \<open>math.pi * x * p\<^sub>2 + p\<^sub>3\<close> is finite and
  not both \<open>p\<^sub>1 * p\<^sub>1\<close> overflows and the computed sine is \<open>0\<close>; in every other case it is
  NaN.
\<close>

theorem baseResult_bounded:
  assumes "length p = 4" "list_all isfinite p" "list_all isfinite xdata"
  shows "(\<forall>p1 s :: real. 1 \<le> 1 + p1\<^sup>2 * s\<^sup>2)
       \<and> (\<forall>xs q zs. baseResult xs q = Inr zs \<longrightarrow> (\<forall>z \<in> set zs. \<bar>z\<bar> \<le> \<bar>q ! 0\<bar>))
       \<and> (\<forall>b s. fadd (Fin 1) (fmul (fmul (fmul b b) s) s) \<noteq> Fin 0
                \<and> (\<forall>d. fadd (Fin 1) (fmul (fmul (fmul b b) s) s) = Fin d \<longrightarrow> 1 \<le> d))
       \<and> (\<exists>ys a. baseResult_f64 lib xdata p = Inr ys \<and> length ys = length xdata \<and> p ! 0 = Fin a
             \<and> (\<forall>i < length xdata.
                   if isfinite (phase_f64 p (xdata ! i))
                      \<and> (isfinite (fmul (p ! 1) (p ! 1))
                          \<or> fsin lib (phase_f64 p (xdata ! i)) \<noteq> Fin 0)
                   then \<exists>v. ys ! i = Fin v \<and> isfinite (ys ! i) \<and> 0 \<le> \<bar>v\<bar> \<and> \<bar>v\<bar> \<le> \<bar>a\<bar>
                   else ys ! i = NaN))"
proof (intro conjI)
  show "\<forall>p1 s :: real. 1 \<le> 1 + p1\<^sup>2 * s\<^sup>2"
    by simp
next
  show "\<forall>xs q zs. baseResult xs q = Inr zs \<longrightarrow> (\<forall>z \<in> set zs. \<bar>z\<bar> \<le> \<bar>q ! 0\<bar>)"
    using baseResult_abs_le by blast
next
  show "\<forall>b s. fadd (Fin 1) (fmul (fmul (fmul b b) s) s) \<noteq> Fin 0
          \<and> (\<forall>d. fadd (Fin 1) (fmul (fmul (fmul b b) s) s) = Fin d \<longrightarrow> 1 \<le> d)"
  proof (intro allI)
    fix b s
    from denom_shape [of b s]
    show "fadd (Fin 1) (fmul (fmul (fmul b b) s) s) \<noteq> Fin 0
          \<and> (\<forall>d. fadd (Fin 1) (fmul (fmul (fmul b b) s) s) = Fin d \<longrightarrow> 1 \<le> d)"
      by auto
  qed
next
  from baseResult_f64_elements [OF assms(1,2)]
  show "\<exists>ys a. baseResult_f64 lib xdata p = Inr ys \<and> length ys = length xdata \<and> p ! 0 = Fin a
             \<and> (\<forall>i < length xdata.
                   if isfinite (phase_f64 p (xdata ! i))
                      \<and> (isfinite (fmul (p ! 1) (p ! 1))
                          \<or> fsin lib (phase_f64 p (xdata ! i)) \<noteq> Fin 0)
                   then \<exists>v. ys ! i = Fin v \<and> isfinite (ys ! i) \<and> 0 \<le> \<bar>v\<bar> \<and> \<bar>v\<bar> \<le> \<bar>a\<bar>
                   else ys ! i = NaN)" .
qed

theorem baseResult_bounded_witness:
  "list_all isfinite [Fin 1, Fin (2 ^ 600), Fin 1, Fin 0] \<and> list_all isfinite [Fin 0, Fin 1]
   \<and> phase_f64 [Fin 1, Fin (2 ^ 600), Fin 1, Fin 0] (Fin 0) = Fin 0
   \<and> phase_f64 [Fin 1, Fin (2 ^ 600), Fin 1, Fin 0] (Fin 1) = Fin math_pi
   \<and> fmul (Fin (2 ^ 600)) (Fin (2 ^ 600)) = PInf
   \<and> fsin correctly_rounded (Fin 0) = Fin 0
   \<and> fsin correctly_rounded (Fin math_pi) \<noteq> Fin 0
   \<and> baseResult_f64 correctly_rounded [Fin 0, Fin 1] [Fin 1, Fin (2 ^ 600), Fin 1, Fin 0]
       = Inr [NaN, Fin 0]"
proof -
  let ?p = "[Fin 1, Fin (2 ^ 600), Fin 1, Fin 0]"
  have h2: "list_all isfinite ?p" and h3: "list_all isfinite [Fin 0, Fin 1]"
    by (simp_all add: evaluated)
  have ph: "phase_f64 [p0, p1, Fin 1, Fin 0] (Fin 0) = Fin 0"
    "phase_f64 [p0, p1, Fin 1, Fin 0] (Fin 1) = Fin math_pi" for p0 p1
    by (simp_all add: phase_f64_def fround_small)
  have "(0::real) < 1 / 2 ^ 55"
    by simp
  from this sin_math_pi_rounded(1) have pos: "0 < lsin correctly_rounded math_pi"
    by (rule less_le_trans)
  have ev: "baseResult_f64 correctly_rounded [Fin 0, Fin 1] ?p = Inr [NaN, Fin 0]"
    using pos by (simp add: baseResult_f64_def ph evaluated)
  show ?thesis
    using baseResult_bounded [OF _ h2 h3, of correctly_rounded] ev h2 h3 ph pos
    by (simp add: evaluated)
qed

text \<open>
  C5 as stated fails in float64: at \<open>p = [1, 2\<^sup>6\<^sup>0\<^sup>0, 1, 0]\<close> and \<open>x = [0]\<close>, all finite, the
  product \<open>p\<^sub>1 * p\<^sub>1\<close> is \<open>inf\<close>, the sine is \<open>0\<close>, and \<open>inf * 0\<close> is NaN. Only
  \<open>sin 0 = 0\<close> is used of the library.
\<close>

theorem baseResult_f64_nan:
  "list_all isfinite [Fin 1, Fin (2 ^ 600), Fin 1, Fin 0] \<and> list_all isfinite [Fin 0]
   \<and> baseResult_f64 correctly_rounded [Fin 0] [Fin 1, Fin (2 ^ 600), Fin 1, Fin 0] = Inr [NaN]
   \<and> \<not> isfinite NaN"
  by (simp add: baseResult_f64_def evaluated)

subsection \<open>Derivative\<close>

text \<open>
  C2, in exact arithmetic: with every float64 read as the real number it holds,
  \<open>math.pi\<close> as \<open>\<pi>\<close> and every operation exact, \<open>baseDerivative\<close> returns for a parameter
  vector of length 4 and any samples, elementwise, the closed form
  \<open>-2\<pi> p\<^sub>0 p\<^sub>1\<^sup>2 p\<^sub>2 sin(\<phi>) cos(\<phi>) / denom\<^sup>2\<close> with \<open>\<phi> = \<pi> x p\<^sub>2 + p\<^sub>3\<close> and
  \<open>denom = 1 + p\<^sub>1\<^sup>2 sin\<^sup>2(\<phi>)\<close>; no difference quotient is taken.
\<close>

theorem baseDerivative_closed_form:
  "length p = 4 \<Longrightarrow>
   baseDerivative xdata p =
     Inr (map (\<lambda>x. - 2 * pi * p ! 0 * (p ! 1)\<^sup>2 * p ! 2 * sin (pi * x * p ! 2 + p ! 3)
                     * cos (pi * x * p ! 2 + p ! 3)
                     / (1 + (p ! 1)\<^sup>2 * (sin (pi * x * p ! 2 + p ! 3))\<^sup>2)\<^sup>2) xdata)"
  by (simp add: baseDerivative_def Let_def elementwise power2_eq_square mult.assoc)

theorem baseDerivative_closed_form_witness:
  "baseDerivative [0, 1/4] [1, 1, 1, 0] = Inr [0, - (4 * pi / 9)]"
  using baseDerivative_closed_form [of "[1, 1, 1, 0]" "[0, 1/4]"]
  by (simp add: sin_45 cos_45 power2_eq_square)

text \<open>
  C2 as stated, for the derivative that the code returns, fails: at
  \<open>p = [1, 2\<^sup>6\<^sup>0\<^sup>0, 1, 0]\<close> and \<open>x = [0]\<close>, all finite, \<open>p\<^sub>1 * p\<^sub>1\<close> is \<open>inf\<close>, the sine is
  \<open>0\<close>, \<open>dd\<close> is NaN and the derivative is \<open>[nan]\<close>, where the closed form is 0. Only
  \<open>sin 0 = 0\<close> and \<open>cos 0 = 1\<close> are used of the library.
\<close>

theorem baseDerivative_f64_not_closed_form:
  "list_all isfinite [Fin 1, Fin (2 ^ 600), Fin 1, Fin 0] \<and> list_all isfinite [Fin 0]
   \<and> baseDerivative_f64 correctly_rounded [Fin 0] [Fin 1, Fin (2 ^ 600), Fin 1, Fin 0]
       = Inr [NaN]
   \<and> - 2 * pi * 1 * (2 ^ 600)\<^sup>2 * 1 * sin (pi * 0 * 1 + 0) * cos (pi * 0 * 1 + 0)
       / (1 + (2 ^ 600)\<^sup>2 * (sin (pi * 0 * 1 + 0))\<^sup>2)\<^sup>2 = (0::real)"
  by (simp add: baseDerivative_f64_def evaluated)

text \<open>
  C7, in exact arithmetic: for a model with \<open>npbase = npmax = 4\<close>, a parameter vector of
  length 4 and no selection list, with every float64 read as the real number it holds,
  \<open>math.pi\<close> as \<open>\<pi>\<close> and every operation exact, the derivative to \<open>x\<close> is \<open>\<pi> p\<^sub>2\<close> times
  the column that \<open>basePartial\<close> computes for the phase, parameter 3.
\<close>

theorem baseDerivative_chain_rule:
  assumes "length p = 4" "npbase self = 4" "npmax self = 4"
  shows "\<exists>d m. baseDerivative xdata p = Inr d
           \<and> basePartial self junk xdata p None = Inr m
           \<and> d = map (\<lambda>v. pi * p ! 2 * v) (column m 3)"
proof -
  from basePartial_None [of p self junk xdata] assms obtain m where
    m: "basePartial self junk xdata p None = Inr m"
      "parts_of xdata p 3 = Some (column m 3)"
    by auto
  from m(2) have col3: "column m 3 =
      map (\<lambda>x. - 2 * p ! 0 * (p ! 1)\<^sup>2 * sin (pi * x * p ! 2 + p ! 3)
                * cos (pi * x * p ! 2 + p ! 3)
                / (1 + (p ! 1)\<^sup>2 * (sin (pi * x * p ! 2 + p ! 3))\<^sup>2)\<^sup>2) xdata"
    by (simp add: parts_of_3)
  have "baseDerivative xdata p = Inr (map (\<lambda>v. pi * p ! 2 * v) (column m 3))"
    using assms(1)
    by (simp add: col3 baseDerivative_def Let_def elementwise power2_eq_square mult_ac)
  with m(1) show ?thesis by blast
qed

theorem baseDerivative_chain_rule_witness:
  "baseDerivative [1/8] [1, 2, 2, 0] = Inr [- (8 * pi / 9)]
   \<and> basePartial \<lparr>npbase = 4, npmax = 4, xUnit = Dimensionless, yUnit = Dimensionless\<rparr>
         (\<lambda>i j. 7) [1/8] [1, 2, 2, 0] None
       = Inr \<lparr>nrows = 1, ncols = 4, cells = [[1/3, - (2/9), - (pi / 18), - (4/9)]]\<rparr>
   \<and> [- (8 * pi / 9)] = map (\<lambda>v. pi * 2 * v) [- (4/9)]"
proof -
  let ?self = "\<lparr>npbase = 4, npmax = 4, xUnit = Dimensionless, yUnit = Dimensionless\<rparr>"
  have q: "pi * (1/8) * 2 = pi / 4" "pi * 2 / 8 = pi / 4" "sqrt 2 * sqrt 2 = 2"
    by simp_all
  have d: "baseDerivative [1/8] [1, 2, 2, 0] = Inr [- (8 * pi / 9)]"
    by (simp add: baseDerivative_def Let_def q sin_45 cos_45)
  have m: "basePartial ?self (\<lambda>i j. 7) [1/8] [1, 2, 2, 0] None
      = Inr \<lparr>nrows = 1, ncols = 4, cells = [[1/3, - (2/9), - (pi / 18), - (4/9)]]\<rparr>"
    by (simp add: basePartial_def parts_of_def numpy_ndarray_def set_column_def Let_def
        eval_nat_numeral q sin_45 cos_45)
  show ?thesis
    using baseDerivative_chain_rule [of "[1, 2, 2, 0]" ?self "[1/8]" "\<lambda>i j. 7"] d m
    by (simp add: column_def)
qed

text \<open>
  C7 as stated, for the arrays that the code returns, fails: at \<open>p = [1, 1, 2\<^sup>1\<^sup>0\<^sup>2\<^sup>2, 0]\<close> and
  \<open>x = [0]\<close>, all finite, \<open>baseDerivative\<close> forms \<open>-2 * math.pi * p\<^sub>0 * p\<^sub>1 * p\<^sub>1 * p\<^sub>2\<close>
  first, which is \<open>-inf\<close>, and multiplies it by the sine \<open>0\<close>, which is NaN; column 3 of
  \<open>basePartial\<close> is \<open>0\<close>, and \<open>math.pi * p\<^sub>2\<close> times it is \<open>0\<close> in either order. Only
  \<open>sin 0 = 0\<close> and \<open>cos 0 = 1\<close> are used of the library.
\<close>

theorem baseDerivative_f64_not_chain_rule:
  "list_all isfinite [Fin 1, Fin 1, Fin (2 ^ 1022), Fin 0] \<and> list_all isfinite [Fin 0]
   \<and> baseDerivative_f64 correctly_rounded [Fin 0] [Fin 1, Fin 1, Fin (2 ^ 1022), Fin 0]
       = Inr [NaN]
   \<and> basePartial_f64 correctly_rounded \<lparr>npbase = 4, npmax = 4, xUnit = Dimensionless, yUnit = Dimensionless\<rparr>
         (\<lambda>i j. Fin 7) [Fin 0] [Fin 1, Fin 1, Fin (2 ^ 1022), Fin 0] None
       = Inr \<lparr>nrows_f64 = 1, ncols_f64 = 4, cells_f64 = [[Fin 1, Fin 0, Fin 0, Fin 0]]\<rparr>
   \<and> map (\<lambda>v. fmul (fmul (Fin math_pi) (Fin (2 ^ 1022))) v) [Fin 0] = [Fin 0]
   \<and> map (\<lambda>v. fmul (Fin math_pi) (fmul (Fin (2 ^ 1022)) v)) [Fin 0] = [Fin 0]"
proof -
  obtain r where r: "fround (math_pi * 2 ^ 1022) = Fin r"
    using product_overflows(2) by blast
  have d: "baseDerivative_f64 correctly_rounded [Fin 0] [Fin 1, Fin 1, Fin (2 ^ 1022), Fin 0]
      = Inr [NaN]"
    using product_overflows(1)
    by (simp add: baseDerivative_f64_def evaluated)
  have m: "basePartial_f64 correctly_rounded \<lparr>npbase = 4, npmax = 4, xUnit = Dimensionless, yUnit = Dimensionless\<rparr>
         (\<lambda>i j. Fin 7) [Fin 0] [Fin 1, Fin 1, Fin (2 ^ 1022), Fin 0] None
       = Inr \<lparr>nrows_f64 = 1, ncols_f64 = 4, cells_f64 = [[Fin 1, Fin 0, Fin 0, Fin 0]]\<rparr>"
    by (simp add: basePartial_f64_def parts_of_f64_def numpy_ndarray_f64_def set_column_f64_def
        Let_def eval_nat_numeral evaluated)
  show ?thesis
    using d m r by (simp add: evaluated)
qed

subsection \<open>Partials\<close>

text \<open>
  C3, in exact arithmetic: for a model with \<open>npbase = npmax = 4\<close>, a parameter vector of
  length 4 and no selection list, with every float64 read as the real number it holds,
  \<open>math.pi\<close> as \<open>\<pi>\<close> and every operation exact, the four columns of \<open>basePartial\<close> are
  \<open>1/denom\<close> for \<open>p\<^sub>0\<close>, \<open>-2 p\<^sub>0 p\<^sub>1 sin\<^sup>2(\<phi>)/denom\<^sup>2\<close> for \<open>p\<^sub>1\<close>, \<open>\<pi> x p3term\<close> for \<open>p\<^sub>2\<close> and
  \<open>p3term\<close> for \<open>p\<^sub>3\<close>, where \<open>p3term = -2 p\<^sub>0 p\<^sub>1\<^sup>2 sin(\<phi>) cos(\<phi>)/denom\<^sup>2\<close>,
  \<open>\<phi> = \<pi> x p\<^sub>2 + p\<^sub>3\<close> and \<open>denom = 1 + p\<^sub>1\<^sup>2 sin\<^sup>2(\<phi>)\<close>.
\<close>

theorem basePartial_closed_forms:
  assumes "length p = 4" "npbase self = 4" "npmax self = 4"
  shows "\<exists>m. basePartial self junk xdata p None = Inr m
           \<and> nrows m = length xdata \<and> ncols m = 4
           \<and> column m 0 =
               map (\<lambda>x. 1 / (1 + (p ! 1)\<^sup>2 * (sin (pi * x * p ! 2 + p ! 3))\<^sup>2)) xdata
           \<and> column m 1 =
               map (\<lambda>x. - 2 * p ! 0 * p ! 1 * (sin (pi * x * p ! 2 + p ! 3))\<^sup>2
                         / (1 + (p ! 1)\<^sup>2 * (sin (pi * x * p ! 2 + p ! 3))\<^sup>2)\<^sup>2) xdata
           \<and> column m 2 =
               map (\<lambda>x. pi * x *
                         (- 2 * p ! 0 * (p ! 1)\<^sup>2 * sin (pi * x * p ! 2 + p ! 3)
                          * cos (pi * x * p ! 2 + p ! 3)
                          / (1 + (p ! 1)\<^sup>2 * (sin (pi * x * p ! 2 + p ! 3))\<^sup>2)\<^sup>2)) xdata
           \<and> column m 3 =
               map (\<lambda>x. - 2 * p ! 0 * (p ! 1)\<^sup>2 * sin (pi * x * p ! 2 + p ! 3)
                         * cos (pi * x * p ! 2 + p ! 3)
                         / (1 + (p ! 1)\<^sup>2 * (sin (pi * x * p ! 2 + p ! 3))\<^sup>2)\<^sup>2) xdata"
proof -
  from basePartial_None [of p self junk xdata] assms obtain m where
    m: "basePartial self junk xdata p None = Inr m" "nrows m = length xdata" "ncols m = 4"
      and "parts_of xdata p 0 = Some (column m 0)" "parts_of xdata p 1 = Some (column m 1)"
      "parts_of xdata p 2 = Some (column m 2)" "parts_of xdata p 3 = Some (column m 3)"
    by auto
  then have "column m 0 = the (parts_of xdata p 0)" "column m 1 = the (parts_of xdata p 1)"
    "column m 2 = the (parts_of xdata p 2)" "column m 3 = the (parts_of xdata p 3)"
    by simp_all
  then show ?thesis
    using m(1,2,3) by (simp add: parts_of_0 parts_of_1 parts_of_2 parts_of_3)
qed

theorem basePartial_closed_forms_witness:
  "basePartial \<lparr>npbase = 4, npmax = 4, xUnit = Dimensionless, yUnit = Dimensionless\<rparr>
     (\<lambda>i j. 7) [0, 1/4] [1, 2, 1, 0] None
   = Inr \<lparr>nrows = 2, ncols = 4,
          cells = [[1, 0, 0, 0], [1/3, - (2/9), - (pi / 9), - (4/9)]]\<rparr>"
proof -
  let ?self = "\<lparr>npbase = 4, npmax = 4, xUnit = Dimensionless, yUnit = Dimensionless\<rparr>"
  have q: "sqrt 2 * sqrt 2 = 2"
    by simp
  have ev: "basePartial ?self (\<lambda>i j. 7) [0, 1/4] [1, 2, 1, 0] None
      = Inr \<lparr>nrows = 2, ncols = 4,
             cells = [[1, 0, 0, 0], [1/3, - (2/9), - (pi / 9), - (4/9)]]\<rparr>"
    by (simp add: basePartial_def parts_of_def numpy_ndarray_def set_column_def Let_def
        eval_nat_numeral q sin_45 cos_45)
  show ?thesis
    using basePartial_closed_forms [of "[1, 2, 1, 0]" ?self "\<lambda>i j. 7" "[0, 1/4]"] ev
    by simp
qed

text \<open>
  C3 as stated, for the matrix that the code returns, fails: at \<open>p = [1, 2\<^sup>6\<^sup>0\<^sup>0, 1, 0]\<close> and
  \<open>x = [0]\<close>, all finite, \<open>p\<^sub>1 * p\<^sub>1\<close> is \<open>inf\<close>, \<open>s2\<close> is \<open>0\<close>, \<open>dd\<close> is NaN and the
  four columns are NaN, where the closed forms are 1, 0, 0 and 0. Only \<open>sin 0 = 0\<close> and
  \<open>cos 0 = 1\<close> are used of the library.
\<close>

theorem basePartial_f64_not_closed_forms:
  "list_all isfinite [Fin 1, Fin (2 ^ 600), Fin 1, Fin 0] \<and> list_all isfinite [Fin 0]
   \<and> basePartial_f64 correctly_rounded \<lparr>npbase = 4, npmax = 4, xUnit = Dimensionless, yUnit = Dimensionless\<rparr>
         (\<lambda>i j. Fin 7) [Fin 0] [Fin 1, Fin (2 ^ 600), Fin 1, Fin 0] None
       = Inr \<lparr>nrows_f64 = 1, ncols_f64 = 4, cells_f64 = [[NaN, NaN, NaN, NaN]]\<rparr>
   \<and> (1::real) / (1 + (2 ^ 600)\<^sup>2 * (sin (pi * 0 * 1 + 0))\<^sup>2) = 1
   \<and> - 2 * 1 * 2 ^ 600 * (sin (pi * 0 * 1 + 0))\<^sup>2
       / (1 + (2 ^ 600)\<^sup>2 * (sin (pi * 0 * 1 + 0))\<^sup>2)\<^sup>2 = (0::real)
   \<and> pi * 0 * (- 2 * 1 * (2 ^ 600)\<^sup>2 * sin (pi * 0 * 1 + 0) * cos (pi * 0 * 1 + 0)
       / (1 + (2 ^ 600)\<^sup>2 * (sin (pi * 0 * 1 + 0))\<^sup>2)\<^sup>2) = (0::real)
   \<and> - 2 * 1 * (2 ^ 600)\<^sup>2 * sin (pi * 0 * 1 + 0) * cos (pi * 0 * 1 + 0)
       / (1 + (2 ^ 600)\<^sup>2 * (sin (pi * 0 * 1 + 0))\<^sup>2)\<^sup>2 = (0::real)"
  by (simp add: basePartial_f64_def parts_of_f64_def numpy_ndarray_f64_def set_column_f64_def
      Let_def eval_nat_numeral evaluated)

text \<open>
  C4. With a selection list \<open>L\<close> of indices from 0 to 3, column \<open>k\<close> of the result is the
  partial to parameter \<open>L[k]\<close>; without a list the columns are the four partials in the
  natural order. For the list \<open>[3, 0]\<close> the result has two columns: the natural
  column 3, then the natural column 0.
\<close>

theorem basePartial_selection_order:
  assumes "length p = 4" "set L \<subseteq> {0, 1, 2, 3}" "npbase self = 4" "npmax self = 4"
  shows "\<exists>m n m'. basePartial self junk xdata p (Some L) = Inr m
           \<and> basePartial self junk xdata p None = Inr n
           \<and> basePartial self junk xdata p (Some [3, 0]) = Inr m'
           \<and> nrows m = length xdata \<and> ncols m = length L
           \<and> (\<forall>k < length L. column m k = column n (nat (L ! k)))
           \<and> nrows n = length xdata \<and> ncols n = 4
           \<and> parts_of xdata p 0 = Some (column n 0)
           \<and> parts_of xdata p 1 = Some (column n 1)
           \<and> parts_of xdata p 2 = Some (column n 2)
           \<and> parts_of xdata p 3 = Some (column n 3)
           \<and> nrows m' = length xdata \<and> ncols m' = 2
           \<and> column m' 0 = column n 3 \<and> column m' 1 = column n 0"
proof -
  from basePartial_None [of p self junk xdata] assms obtain n where
    n: "basePartial self junk xdata p None = Inr n" "nrows n = length xdata" "ncols n = 4"
      and nat: "parts_of xdata p 0 = Some (column n 0)" "parts_of xdata p 1 = Some (column n 1)"
      "parts_of xdata p 2 = Some (column n 2)" "parts_of xdata p 3 = Some (column n 3)"
    by auto
  have sel: "\<exists>m. basePartial self junk xdata p (Some K) = Inr m
           \<and> nrows m = length xdata \<and> ncols m = length K
           \<and> (\<forall>k < length K. column m k = column n (nat (K ! k)))"
    if K: "set K \<subseteq> {0, 1, 2, 3}" for K
  proof -
    from basePartial_Some [of p K self junk xdata] assms(1) K obtain m where
      m: "basePartial self junk xdata p (Some K) = Inr m" "nrows m = length xdata"
        "ncols m = length K" "\<forall>i < length K. parts_of xdata p (K ! i) = Some (column m i)"
      by auto
    have "column m k = column n (nat (K ! k))" if "k < length K" for k
    proof -
      from that K have "K ! k \<in> {0, 1, 2, 3}"
        using nth_mem by blast
      with nat have "parts_of xdata p (K ! k) = Some (column n (nat (K ! k)))"
        by auto
      with m(4) that show ?thesis by simp
    qed
    with m show ?thesis by blast
  qed
  from sel [OF assms(2)] obtain m where
    m: "basePartial self junk xdata p (Some L) = Inr m" "nrows m = length xdata"
      "ncols m = length L" "\<forall>k < length L. column m k = column n (nat (L ! k))"
    by blast
  from sel [of "[3, 0]"] obtain m' where
    m': "basePartial self junk xdata p (Some [3, 0]) = Inr m'" "nrows m' = length xdata"
      "ncols m' = length [3, 0 :: int]"
      "\<forall>k < length [3, 0 :: int]. column m' k = column n (nat ([3, 0] ! k))"
    by auto
  from m'(4) have "column m' 0 = column n 3" "column m' 1 = column n 0"
    by simp_all
  with n nat m m'(1,2,3) show ?thesis
    by auto
qed

theorem basePartial_selection_order_witness:
  "basePartial \<lparr>npbase = 4, npmax = 4, xUnit = Dimensionless, yUnit = Dimensionless\<rparr>
     (\<lambda>i j. 0) [1/2] [1, 1, 1, 0] (Some [3, 0, 1])
   = Inr \<lparr>nrows = 1, ncols = 3, cells = [[0, 1/2, - (1/2)]]\<rparr>"
proof -
  let ?self = "\<lparr>npbase = 4, npmax = 4, xUnit = Dimensionless, yUnit = Dimensionless\<rparr>"
  have ev: "basePartial ?self (\<lambda>i j. 0) [1/2] [1, 1, 1, 0] (Some [3, 0, 1])
      = Inr \<lparr>nrows = 1, ncols = 3, cells = [[0, 1/2, - (1/2)]]\<rparr>"
    by (simp add: basePartial_def parts_of_def numpy_ndarray_def set_column_def Let_def
        eval_nat_numeral)
  show ?thesis
    using basePartial_selection_order [of "[1, 1, 1, 0]" "[3, 0, 1]" ?self "\<lambda>i j. 0" "[1/2]"] ev
    by simp
qed

subsection \<open>The closed forms are the derivatives of the value\<close>

text \<open>
  The value is the function of the docstring; \<open>baseDerivative\<close> is its derivative to
  \<open>x\<close> and the columns of \<open>basePartial\<close> are its derivatives to the four parameters,
  as derivatives of real functions and not up to a tolerance.
\<close>

lemma denom_pos: "0 < 1 + b\<^sup>2 * (sin t)\<^sup>2" for b t :: real
  by (simp add: add_pos_nonneg)

lemma deriv_quot:
  fixes g :: "real \<Rightarrow> real"
  assumes "(g has_real_derivative g') (at t)" "g t \<noteq> 0"
  shows "((\<lambda>t. c / g t) has_real_derivative (- c * g' / (g t)\<^sup>2)) (at t)"
  using DERIV_divide [OF DERIV_const [of c] assms] by (simp add: power2_eq_square)

lemma value_deriv_x:
  "((\<lambda>x. p0 / (1 + p1\<^sup>2 * (sin (pi * x * p2 + p3))\<^sup>2)) has_real_derivative
      (- 2 * pi * p0 * p1\<^sup>2 * p2 * sin (pi * x * p2 + p3) * cos (pi * x * p2 + p3)
         / (1 + p1\<^sup>2 * (sin (pi * x * p2 + p3))\<^sup>2)\<^sup>2)) (at x)"
proof -
  have g: "((\<lambda>x. 1 + p1\<^sup>2 * (sin (pi * x * p2 + p3))\<^sup>2) has_real_derivative
      p1\<^sup>2 * (2 * sin (pi * x * p2 + p3) * (cos (pi * x * p2 + p3) * (pi * p2)))) (at x)"
    by (auto intro!: derivative_eq_intros)
  have nz: "1 + p1\<^sup>2 * (sin (pi * x * p2 + p3))\<^sup>2 \<noteq> 0"
    using denom_pos [of p1 "pi * x * p2 + p3"] by simp
  show ?thesis
    by (rule DERIV_cong [OF deriv_quot [OF g nz]]) simp
qed

lemma value_deriv_p0:
  "((\<lambda>p0. p0 / (1 + p1\<^sup>2 * (sin (pi * x * p2 + p3))\<^sup>2)) has_real_derivative
      (1 / (1 + p1\<^sup>2 * (sin (pi * x * p2 + p3))\<^sup>2))) (at p0)"
  using denom_pos [of p1 "pi * x * p2 + p3"] by (auto intro!: derivative_eq_intros)

lemma value_deriv_p1:
  "((\<lambda>p1. p0 / (1 + p1\<^sup>2 * (sin (pi * x * p2 + p3))\<^sup>2)) has_real_derivative
      (- 2 * p0 * p1 * (sin (pi * x * p2 + p3))\<^sup>2
         / (1 + p1\<^sup>2 * (sin (pi * x * p2 + p3))\<^sup>2)\<^sup>2)) (at p1)"
proof -
  have g: "((\<lambda>p1. 1 + p1\<^sup>2 * (sin (pi * x * p2 + p3))\<^sup>2) has_real_derivative
      2 * p1 * (sin (pi * x * p2 + p3))\<^sup>2) (at p1)"
    by (auto intro!: derivative_eq_intros)
  have nz: "1 + p1\<^sup>2 * (sin (pi * x * p2 + p3))\<^sup>2 \<noteq> 0"
    using denom_pos [of p1 "pi * x * p2 + p3"] by simp
  show ?thesis
    by (rule DERIV_cong [OF deriv_quot [OF g nz]]) simp
qed

lemma value_deriv_p2:
  "((\<lambda>p2. p0 / (1 + p1\<^sup>2 * (sin (pi * x * p2 + p3))\<^sup>2)) has_real_derivative
      (pi * x * (- 2 * p0 * p1\<^sup>2 * sin (pi * x * p2 + p3) * cos (pi * x * p2 + p3)
         / (1 + p1\<^sup>2 * (sin (pi * x * p2 + p3))\<^sup>2)\<^sup>2))) (at p2)"
proof -
  have g: "((\<lambda>p2. 1 + p1\<^sup>2 * (sin (pi * x * p2 + p3))\<^sup>2) has_real_derivative
      p1\<^sup>2 * (2 * sin (pi * x * p2 + p3) * (cos (pi * x * p2 + p3) * (pi * x)))) (at p2)"
    by (auto intro!: derivative_eq_intros)
  have nz: "1 + p1\<^sup>2 * (sin (pi * x * p2 + p3))\<^sup>2 \<noteq> 0"
    using denom_pos [of p1 "pi * x * p2 + p3"] by simp
  show ?thesis
    by (rule DERIV_cong [OF deriv_quot [OF g nz]]) simp
qed

lemma value_deriv_p3:
  "((\<lambda>p3. p0 / (1 + p1\<^sup>2 * (sin (pi * x * p2 + p3))\<^sup>2)) has_real_derivative
      (- 2 * p0 * p1\<^sup>2 * sin (pi * x * p2 + p3) * cos (pi * x * p2 + p3)
         / (1 + p1\<^sup>2 * (sin (pi * x * p2 + p3))\<^sup>2)\<^sup>2)) (at p3)"
proof -
  have g: "((\<lambda>p3. 1 + p1\<^sup>2 * (sin (pi * x * p2 + p3))\<^sup>2) has_real_derivative
      p1\<^sup>2 * (2 * sin (pi * x * p2 + p3) * cos (pi * x * p2 + p3))) (at p3)"
    by (auto intro!: derivative_eq_intros)
  have nz: "1 + p1\<^sup>2 * (sin (pi * x * p2 + p3))\<^sup>2 \<noteq> 0"
    using denom_pos [of p1 "pi * x * p2 + p3"] by simp
  show ?thesis
    by (rule DERIV_cong [OF deriv_quot [OF g nz]]) simp
qed

lemma baseResult_etalon: "length p = 4 \<Longrightarrow> baseResult xs p = Inr (map (etalon p) xs)"
  by (simp add: baseResult_def etalon_def power2_eq_square mult.assoc)

lemma baseDerivative_is_derivative:
  assumes "length p = 4"
  shows "\<exists>ds. baseDerivative xs p = Inr ds \<and> length ds = length xs
           \<and> (\<forall>i < length xs. (etalon p has_real_derivative ds ! i) (at (xs ! i)))"
proof -
  let ?d = "\<lambda>x. - 2 * pi * p ! 0 * (p ! 1)\<^sup>2 * p ! 2 * sin (pi * x * p ! 2 + p ! 3)
                     * cos (pi * x * p ! 2 + p ! 3)
                     / (1 + (p ! 1)\<^sup>2 * (sin (pi * x * p ! 2 + p ! 3))\<^sup>2)\<^sup>2"
  have "baseDerivative xs p = Inr (map ?d xs)"
    using assms
    by (simp add: baseDerivative_def Let_def elementwise power2_eq_square mult.assoc)
  moreover have "(etalon p has_real_derivative ?d x) (at x)" for x
    unfolding etalon_def by (rule value_deriv_x)
  ultimately show ?thesis by simp
qed

lemma basePartial_is_gradient:
  assumes "length p = 4" "npbase self = 4" "npmax self = 4"
  shows "\<exists>m. basePartial self junk xs p None = Inr m
           \<and> (\<forall>j < 4. \<forall>i < length xs.
                 ((\<lambda>q. etalon (p[j := q]) (xs ! i)) has_real_derivative column m j ! i) (at (p ! j)))"
proof -
  from basePartial_None [of p self junk xs] assms obtain m where
    m: "basePartial self junk xs p None = Inr m"
      and "parts_of xs p 0 = Some (column m 0)" "parts_of xs p 1 = Some (column m 1)"
      "parts_of xs p 2 = Some (column m 2)" "parts_of xs p 3 = Some (column m 3)"
    by auto
  then have cols: "column m 0 = the (parts_of xs p 0)" "column m 1 = the (parts_of xs p 1)"
    "column m 2 = the (parts_of xs p 2)" "column m 3 = the (parts_of xs p 3)"
    by simp_all
  obtain p0 p1 p2 p3 where p: "p = [p0, p1, p2, p3]"
    using assms(1) by (auto simp: length_Suc_conv eval_nat_numeral)
  have "((\<lambda>q. etalon (p[j := q]) (xs ! i)) has_real_derivative column m j ! i) (at (p ! j))"
    if "j < 4" "i < length xs" for j i
  proof -
    from that(1) consider "j = 0" | "j = 1" | "j = 2" | "j = 3"
      by linarith
    then show ?thesis
    proof cases
      case 1
      have c: "column m j = the (parts_of xs p 0)"
        using 1 cols by simp
      show ?thesis
        unfolding c parts_of_0 using 1 that(2) value_deriv_p0 [of p1 "xs ! i" p2 p3 p0]
        by (simp add: p etalon_def)
    next
      case 2
      have c: "column m j = the (parts_of xs p 1)"
        using 2 cols by simp
      show ?thesis
        unfolding c parts_of_1 using 2 that(2) value_deriv_p1 [of p0 "xs ! i" p2 p3 p1]
        by (simp add: p etalon_def)
    next
      case 3
      have c: "column m j = the (parts_of xs p 2)"
        using 3 cols by simp
      show ?thesis
        unfolding c parts_of_2 using 3 that(2) value_deriv_p2 [of p0 p1 "xs ! i" p3 p2]
        by (simp add: p etalon_def)
    next
      case 4
      have c: "column m j = the (parts_of xs p 3)"
        using 4 cols by simp
      show ?thesis
        unfolding c parts_of_3 using 4 that(2) value_deriv_p3 [of p0 p1 "xs ! i" p2 p3]
        by (simp add: p etalon_def)
    qed
  qed
  with m show ?thesis by blast
qed

subsection \<open>What a call changes in the store\<close>

text \<open>Each primitive keeps the old objects; an in-place write needs a new target.\<close>

lemma keeps_ret: "Q x \<Longrightarrow> keeps n (ret x) Q"
  by (simp add: keeps_def ret_def)

lemma keeps_raise: "keeps n (raise e) Q"
  by (simp add: keeps_def raise_def)

lemma keeps_then_do:
  assumes "keeps n m Q" "\<And>x. Q x \<Longrightarrow> keeps n (f x) R"
  shows "keeps n (then_do m f) R"
  unfolding keeps_def
proof (intro allI impI)
  fix st :: store assume n: "n \<le> length st"
  obtain r st1 where m: "m st = (r, st1)" by (cases "m st")
  with assms(1) n have 1: "n \<le> length st1" "take n st1 = take n st" "\<forall>x. r = Inr x \<longrightarrow> Q x"
    by (auto simp: keeps_def)
  show "case then_do m f st of (r, st') \<Rightarrow>
           n \<le> length st' \<and> take n st' = take n st \<and> (\<forall>x. r = Inr x \<longrightarrow> R x)"
  proof (cases r)
    case (Inl e)
    with m 1 show ?thesis by (simp add: then_do_def)
  next
    case (Inr x)
    with 1 have "Q x" by simp
    from assms(2) [OF this] 1(1) obtain r2 st2 where
      2: "f x st1 = (r2, st2)" "n \<le> length st2" "take n st2 = take n st1" "\<forall>y. r2 = Inr y \<longrightarrow> R y"
      by (cases "f x st1") (auto simp: keeps_def)
    with m Inr 1 show ?thesis by (simp add: then_do_def)
  qed
qed

lemma keeps_weaken: "keeps n m Q \<Longrightarrow> (\<And>x. Q x \<Longrightarrow> R x) \<Longrightarrow> keeps n m R"
  by (fastforce simp: keeps_def split: prod.splits)

lemma keeps_alloc: "keeps n (alloc ob) (\<lambda>a. n \<le> a)"
  by (simp add: keeps_def alloc_def)

lemma keeps_array_at: "keeps n (array_at a) (\<lambda>_. True)"
  by (simp add: keeps_def array_at_def split: obj.splits)

lemma keeps_array2_at: "keeps n (array2_at a) (\<lambda>_. True)"
  by (simp add: keeps_def array2_at_def split: obj.splits)

lemma keeps_instance_at: "keeps n (instance_at a) (\<lambda>_. True)"
  by (simp add: keeps_def instance_at_def split: obj.splits)

lemma keeps_put: "n \<le> a \<Longrightarrow> keeps n (put a ob) (\<lambda>_. True)"
  by (simp add: keeps_def put_def)

lemma keeps_getitem: "keeps n (getitem a i) (\<lambda>_. True)"
  unfolding getitem_def
  by (rule keeps_then_do [OF keeps_array_at]) (simp add: keeps_ret keeps_raise)

lemma keeps_np_scalar: "keeps n (np_scalar f a) (\<lambda>b. n \<le> b)"
  unfolding np_scalar_def
  by (rule keeps_then_do [OF keeps_array_at]) (rule keeps_alloc)

lemma keeps_np_binary: "keeps n (np_binary f a b) (\<lambda>c. n \<le> c)"
  unfolding np_binary_def
  by (intro keeps_then_do [OF keeps_array_at]) (simp add: keeps_alloc keeps_raise)

lemma keeps_np_inplace: "n \<le> a \<Longrightarrow> keeps n (np_inplace f a b) (\<lambda>_. True)"
  unfolding np_inplace_def
  by (intro keeps_then_do [OF keeps_array_at]) (simp add: keeps_put keeps_raise)

lemma keeps_phase_st: "keeps n (phase_st xdata params) (\<lambda>a. n \<le> a)"
  unfolding phase_st_def
  by (intro keeps_then_do [OF keeps_np_scalar] keeps_then_do [OF keeps_getitem] keeps_np_scalar)

lemma keeps_baseResult_st: "keeps n (baseResult_st self xdata params) (\<lambda>a. n \<le> a)"
  unfolding baseResult_st_def
  by (intro keeps_then_do [OF keeps_phase_st] keeps_then_do [OF keeps_np_scalar]
      keeps_then_do [OF keeps_getitem] keeps_then_do [OF keeps_np_binary] keeps_np_scalar)

lemma keeps_baseDerivative_st: "keeps n (baseDerivative_st self xdata params) (\<lambda>a. n \<le> a)"
  unfolding baseDerivative_st_def
  by (intro keeps_then_do [OF keeps_phase_st] keeps_then_do [OF keeps_np_scalar]
      keeps_then_do [OF keeps_getitem] keeps_then_do [OF keeps_np_binary]
      keeps_then_do [OF keeps_np_inplace] keeps_np_binary)

lemma keeps_part1_st: "keeps n (part1_st params s2 d2) (\<lambda>a. n \<le> a)"
  unfolding part1_st_def
  by (intro keeps_then_do [OF keeps_getitem] keeps_then_do [OF keeps_np_scalar] keeps_np_binary)

lemma keeps_part2_st: "keeps n (part2_st xdata p3) (\<lambda>a. n \<le> a)"
  unfolding part2_st_def
  by (intro keeps_then_do [OF keeps_np_scalar] keeps_np_binary)

lemma keeps_parts_st: "keeps n (parts_st xdata params s2 dd d2 p3 kp) (\<lambda>_. True)"
  using keeps_weaken [OF keeps_part1_st, where R = "\<lambda>_. True"]
    keeps_weaken [OF keeps_part2_st, where R = "\<lambda>_. True"]
  by (simp add: parts_st_def keeps_ret keeps_raise)

lemma keeps_setitem_column: "n \<le> partial \<Longrightarrow> keeps n (setitem_column partial k col) (\<lambda>_. True)"
  unfolding setitem_column_def
  by (auto intro!: keeps_then_do [OF keeps_array2_at] keeps_then_do [OF keeps_array_at]
      keeps_raise keeps_put split: sum.splits)

lemma keeps_fill_st:
  assumes "n \<le> partial" "\<And>kp. keeps n (parts kp) (\<lambda>_. True)"
  shows "keeps n (fill_st parts partial k L) (\<lambda>_. True)"
proof (induction L arbitrary: k)
  case Nil
  show ?case by (simp add: keeps_ret)
next
  case (Cons kp rest)
  show ?case
    unfolding fill_st.simps
    by (intro keeps_then_do [OF assms(2)] keeps_then_do [OF keeps_setitem_column [OF assms(1)]]
        Cons.IH)
qed

lemma keeps_terms_st: "keeps n (terms_st xdata params) (\<lambda>_. True)"
  unfolding terms_st_def
  by (intro keeps_then_do [OF keeps_phase_st] keeps_then_do [OF keeps_np_scalar]
      keeps_then_do [OF keeps_np_binary] keeps_then_do [OF keeps_getitem] keeps_ret TrueI)

lemma keeps_basePartial_st:
  "keeps n (basePartial_st self junk xdata params parlist) (\<lambda>a. n \<le> a)"
proof -
  have np: "keeps n (case parlist of
                None \<Rightarrow> then_do (instance_at self) (\<lambda>m. ret (npbase m))
              | Some l \<Rightarrow> ret (length l)) (\<lambda>_. True)"
    by (auto intro!: keeps_then_do [OF keeps_instance_at] keeps_ret split: option.splits)
  have pl: "keeps n (case parlist of
                None \<Rightarrow> then_do (instance_at self) (\<lambda>m. ret (map int [0..<npmax m]))
              | Some l \<Rightarrow> ret l) (\<lambda>_. True)"
    by (auto intro!: keeps_then_do [OF keeps_instance_at] keeps_ret split: option.splits)
  have rest: "keeps n (case t of (s2, dd, d2, p3) \<Rightarrow>
        then_do (case parlist of
                None \<Rightarrow> then_do (instance_at self) (\<lambda>m. ret (map int [0..<npmax m]))
              | Some l \<Rightarrow> ret l) (\<lambda>parlist.
        then_do (fill_st (parts_st xdata params s2 dd d2 p3) partial 0 parlist) (\<lambda>_.
          ret partial))) (\<lambda>a. n \<le> a)" if "n \<le> partial" for t partial
  proof (cases t)
    case (fields s2 dd d2 p3)
    show ?thesis
      unfolding fields prod.case using that
      by (intro keeps_then_do [OF pl] keeps_then_do [OF keeps_fill_st] keeps_parts_st keeps_ret)
  qed
  show ?thesis
    unfolding basePartial_st_def
    by (intro keeps_then_do [OF np] keeps_then_do [OF keeps_array_at]
        keeps_then_do [OF keeps_alloc] keeps_then_do [OF keeps_terms_st] rest)
qed

lemma keeps_frame:
  assumes "keeps (length st) m Q"
  shows "case m st of (r, st') \<Rightarrow> take (length st) st' = st \<and> (\<forall>x. r = Inr x \<longrightarrow> Q x)"
proof -
  obtain r st' where m: "m st = (r, st')"
    by (cases "m st")
  from assms have "length st \<le> length st \<longrightarrow>
      (case m st of (r, st') \<Rightarrow> length st \<le> length st'
         \<and> take (length st) st' = take (length st) st \<and> (\<forall>x. r = Inr x \<longrightarrow> Q x))"
    unfolding keeps_def by (rule spec)
  with m show ?thesis by simp
qed

lemmas run = then_do_def ret_def raise_def alloc_def array_at_def array2_at_def instance_at_def
  put_def getitem_def np_scalar_def np_binary_def np_inplace_def

text \<open>
  The operations on the store compute what the operations on values compute: the
  same array, or the same error.
\<close>

lemma baseResult_st_refines:
  assumes "xdata < length st" "st ! xdata = Array xs" "params < length st" "st ! params = Array ps"
  shows "case baseResult_st self xdata params st of
           (Inl e, st') \<Rightarrow> baseResult xs ps = Inl e
         | (Inr a, st') \<Rightarrow> a < length st' \<and> (\<exists>v. st' ! a = Array v \<and> baseResult xs ps = Inr v)"
  using assms
  by (simp add: baseResult_st_def phase_st_def run baseResult_def nth_append elementwise)

lemma baseDerivative_st_refines:
  assumes "xdata < length st" "st ! xdata = Array xs" "params < length st" "st ! params = Array ps"
  shows "case baseDerivative_st self xdata params st of
           (Inl e, st') \<Rightarrow> baseDerivative xs ps = Inl e
         | (Inr a, st') \<Rightarrow> a < length st' \<and> (\<exists>v. st' ! a = Array v \<and> baseDerivative xs ps = Inr v)"
  using assms
  by (simp add: baseDerivative_st_def phase_st_def run baseDerivative_def nth_append elementwise Let_def)

lemma holds_append: "holds st a ob \<Longrightarrow> holds (st @ ys) a ob"
  by (simp add: holds_def nth_append)

lemma holds_update: "holds st a ob \<Longrightarrow> a \<noteq> b \<Longrightarrow> holds (st[b := x]) a ob"
  by (simp add: holds_def)

lemma holds_update_same: "a < length st \<Longrightarrow> holds (st[a := x]) a x"
  by (simp add: holds_def)

lemma array_at_holds: "holds st a (Array v) \<Longrightarrow> array_at a st = (Inr v, st)"
  by (simp add: holds_def array_at_def)

lemma array2_at_holds: "holds st a (Array2 m) \<Longrightarrow> array2_at a st = (Inr m, st)"
  by (simp add: holds_def array2_at_def)

lemma getitem_holds:
  "holds st a (Array v) \<Longrightarrow> i < length v \<Longrightarrow> getitem a i st = (Inr (v ! i), st)"
  by (simp add: getitem_def then_do_def array_at_holds ret_def)

lemma np_scalar_holds:
  "holds st a (Array v) \<Longrightarrow> np_scalar f a st = (Inr (length st), st @ [Array (map f v)])"
  by (simp add: np_scalar_def then_do_def array_at_holds alloc_def)

lemma np_binary_holds:
  "holds st a (Array u) \<Longrightarrow> holds st b (Array v) \<Longrightarrow> length u = length v \<Longrightarrow>
   np_binary f a b st = (Inr (length st), st @ [Array (map2 f u v)])"
  by (simp add: np_binary_def then_do_def array_at_holds alloc_def)

lemma setitem_column_holds:
  assumes "holds st partial (Array2 m)" "holds st col (Array v)"
  shows "setitem_column partial k col st =
     (case set_column m k v of
        Inl e \<Rightarrow> (Inl e, st)
      | Inr m' \<Rightarrow> (Inr (), st[partial := Array2 m']))"
  using assms
  by (simp add: setitem_column_def then_do_def array_at_holds array2_at_holds raise_def put_def
      split: sum.splits)

lemma part1_st_holds:
  assumes "holds st params (Array ps)" "4 \<le> length ps" "holds st s2 (Array S2)"
    "holds st d2 (Array D2)" "length S2 = length D2"
  shows "part1_st params s2 d2 st =
     (Inr (Suc (length st)),
      st @ [Array (map (\<lambda>v. - 2 * ps ! 0 * ps ! 1 * v) S2),
            Array (map2 (\<lambda>s d. - 2 * ps ! 0 * ps ! 1 * s * d) S2 D2)])"
proof -
  let ?st1 = "st @ [Array (map (\<lambda>v. - 2 * ps ! 0 * ps ! 1 * v) S2)]"
  have t: "holds ?st1 (length st) (Array (map (\<lambda>v. - 2 * ps ! 0 * ps ! 1 * v) S2))"
    by (simp add: holds_def)
  have "np_binary (*) (length st) d2 ?st1
      = (Inr (length ?st1), ?st1 @ [Array (map2 (*) (map (\<lambda>v. - 2 * ps ! 0 * ps ! 1 * v) S2) D2)])"
    using assms by (intro np_binary_holds t holds_append) simp_all
  moreover have "map2 (*) (map (\<lambda>v. - 2 * ps ! 0 * ps ! 1 * v) S2) D2
      = map2 (\<lambda>s d. - 2 * ps ! 0 * ps ! 1 * s * d) S2 D2"
    by (simp add: zip_map1 split_def)
  moreover have "getitem params 0 st = (Inr (ps ! 0), st)" "getitem params 1 st = (Inr (ps ! 1), st)"
    by (rule getitem_holds [OF assms(1)], use assms(2) in auto)+
  ultimately show ?thesis
    using assms
    by (simp add: part1_st_def then_do_def np_scalar_holds)
qed

lemma part2_st_holds:
  assumes "holds st xdata (Array xs)" "holds st p3 (Array P3)" "length xs = length P3"
  shows "part2_st xdata p3 st =
     (Inr (Suc (length st)),
      st @ [Array (map (\<lambda>v. pi * v) xs), Array (map2 (\<lambda>v p. pi * v * p) xs P3)])"
proof -
  let ?st1 = "st @ [Array (map (\<lambda>v. pi * v) xs)]"
  have t: "holds ?st1 (length st) (Array (map (\<lambda>v. pi * v) xs))"
    by (simp add: holds_def)
  have "np_binary (*) (length st) p3 ?st1
      = (Inr (length ?st1), ?st1 @ [Array (map2 (*) (map (\<lambda>v. pi * v) xs) P3)])"
    using assms by (intro np_binary_holds t holds_append) simp_all
  moreover have "map2 (*) (map (\<lambda>v. pi * v) xs) P3 = map2 (\<lambda>v p. pi * v * p) xs P3"
    by (simp add: zip_map1 split_def)
  ultimately show ?thesis
    using assms
    by (simp add: part2_st_def then_do_def np_scalar_holds)
qed

lemma fill_st_refines:
  fixes xs ps S2 DD D2 P3 :: "real list"
  defines "PARTS \<equiv> [0 \<mapsto> DD,
                     1 \<mapsto> map2 (\<lambda>s d. - 2 * ps ! 0 * ps ! 1 * s * d) S2 D2,
                     2 \<mapsto> map2 (\<lambda>v p. pi * v * p) xs P3,
                     3 \<mapsto> P3]"
  assumes st: "holds st partial (Array2 m)"
    "holds st xdata (Array xs)" "holds st params (Array ps)" "holds st s2 (Array S2)"
    "holds st dd (Array DD)" "holds st d2 (Array D2)" "holds st p3 (Array P3)"
    and sep: "partial \<notin> {xdata, params, s2, dd, d2, p3}"
    and len: "4 \<le> length ps" "length S2 = length D2" "length xs = length P3"
  shows "case fill_st (parts_st xdata params s2 dd d2 p3) partial k L st of
           (Inl e, st') \<Rightarrow> fill PARTS k L m = Inl e
         | (Inr u, st') \<Rightarrow> \<exists>m'. holds st' partial (Array2 m') \<and> fill PARTS k L m = Inr m'"
proof -
  define env where "env s \<longleftrightarrow> holds s xdata (Array xs) \<and> holds s params (Array ps)
      \<and> holds s s2 (Array S2) \<and> holds s dd (Array DD) \<and> holds s d2 (Array D2)
      \<and> holds s p3 (Array P3)" for s
  have env_append: "env (s @ ys)" if "env s" for s ys
    using that by (simp add: env_def holds_append)
  have env_update: "env (s[partial := x])" if "env s" for s x
    using that sep by (auto simp: env_def intro!: holds_update)
  have step: "(PARTS kp = None \<and> parts_st xdata params s2 dd d2 p3 kp s = (Inl KeyError, s))
      \<or> (\<exists>c ext col. PARTS kp = Some col
            \<and> parts_st xdata params s2 dd d2 p3 kp s = (Inr c, s @ ext)
            \<and> holds (s @ ext) c (Array col))" if e: "env s" for s kp
  proof -
    consider "kp = 0" | "kp = 1" | "kp = 2" | "kp = 3" | "kp \<notin> {0, 1, 2, 3}"
      by auto
    then show ?thesis
    proof cases
      case 1
      have "parts_st xdata params s2 dd d2 p3 kp s = (Inr dd, s @ [])"
        using 1 by (simp add: parts_st_def ret_def)
      moreover have "holds (s @ []) dd (Array DD)" "PARTS kp = Some DD"
        using e 1 by (simp_all add: env_def PARTS_def)
      ultimately show ?thesis by blast
    next
      case 2
      let ?col = "map2 (\<lambda>s d. - 2 * ps ! 0 * ps ! 1 * s * d) S2 D2"
      let ?ext = "[Array (map (\<lambda>v. - 2 * ps ! 0 * ps ! 1 * v) S2), Array ?col]"
      have "part1_st params s2 d2 s = (Inr (Suc (length s)), s @ ?ext)"
        using e len by (intro part1_st_holds) (simp_all add: env_def)
      then have "parts_st xdata params s2 dd d2 p3 kp s = (Inr (Suc (length s)), s @ ?ext)"
        using 2 by (simp add: parts_st_def)
      moreover have "holds (s @ ?ext) (Suc (length s)) (Array ?col)" "PARTS kp = Some ?col"
        using 2 by (simp_all add: holds_def PARTS_def nth_append)
      ultimately show ?thesis by blast
    next
      case 3
      let ?col = "map2 (\<lambda>v p. pi * v * p) xs P3"
      let ?ext = "[Array (map (\<lambda>v. pi * v) xs), Array ?col]"
      have "part2_st xdata p3 s = (Inr (Suc (length s)), s @ ?ext)"
        using e len by (intro part2_st_holds) (simp_all add: env_def)
      then have "parts_st xdata params s2 dd d2 p3 kp s = (Inr (Suc (length s)), s @ ?ext)"
        using 3 by (simp add: parts_st_def)
      moreover have "holds (s @ ?ext) (Suc (length s)) (Array ?col)" "PARTS kp = Some ?col"
        using 3 by (simp_all add: holds_def PARTS_def nth_append)
      ultimately show ?thesis by blast
    next
      case 4
      have "parts_st xdata params s2 dd d2 p3 kp s = (Inr p3, s @ [])"
        using 4 by (simp add: parts_st_def ret_def)
      moreover have "holds (s @ []) p3 (Array P3)" "PARTS kp = Some P3"
        using e 4 by (simp_all add: env_def PARTS_def)
      ultimately show ?thesis by blast
    next
      case 5
      then have "parts_st xdata params s2 dd d2 p3 kp s = (Inl KeyError, s)" "PARTS kp = None"
        by (simp_all add: parts_st_def raise_def PARTS_def)
      then show ?thesis by blast
    qed
  qed
  have main: "case fill_st (parts_st xdata params s2 dd d2 p3) partial k L s of
           (Inl e, s') \<Rightarrow> fill PARTS k L a = Inl e
         | (Inr u, s') \<Rightarrow> \<exists>m'. holds s' partial (Array2 m') \<and> fill PARTS k L a = Inr m'"
    if "env s" "holds s partial (Array2 a)" for s a
    using that
  proof (induction L arbitrary: k s a)
    case Nil
    then show ?case by (simp add: ret_def)
  next
    case (Cons kp rest)
    from step [OF Cons.prems(1), of kp] show ?case
    proof (elim disjE conjE exE)
      assume "PARTS kp = None" "parts_st xdata params s2 dd d2 p3 kp s = (Inl KeyError, s)"
      then show ?thesis by (simp add: then_do_def)
    next
      fix c ext col
      assume p: "PARTS kp = Some col" "parts_st xdata params s2 dd d2 p3 kp s = (Inr c, s @ ext)"
        "holds (s @ ext) c (Array col)"
      let ?s1 = "s @ ext"
      have e1: "env ?s1" and a1: "holds ?s1 partial (Array2 a)"
        using Cons.prems by (simp_all add: env_append holds_append)
      note set = setitem_column_holds [OF a1 p(3), of k]
      show ?thesis
      proof (cases "set_column a k col")
        case (Inl e)
        with p set show ?thesis by (simp add: then_do_def)
      next
        case (Inr a')
        let ?s2 = "?s1[partial := Array2 a']"
        have "env ?s2" "holds ?s2 partial (Array2 a')"
          using e1 a1 by (simp_all add: env_update holds_def)
        moreover have eq: "fill PARTS k (kp # rest) a = fill PARTS (Suc k) rest a'"
          using p(1) Inr by simp
        moreover have run: "fill_st (parts_st xdata params s2 dd d2 p3) partial k (kp # rest) s
            = fill_st (parts_st xdata params s2 dd d2 p3) partial (Suc k) rest ?s2"
          using p(2) set Inr by (simp add: then_do_def)
        ultimately show ?thesis
          unfolding eq run by (intro Cons.IH)
      qed
    qed
  qed
  show ?thesis
    using st by (intro main) (simp add: env_def)
qed

lemma terms_st_IndexError:
  assumes "holds st xdata (Array xs)" "holds st params (Array ps)" "length ps < 4"
  shows "fst (terms_st xdata params st) = Inl IndexError"
  using assms
  by (simp add: terms_st_def phase_st_def run holds_def nth_append)

lemma terms_st_holds:
  assumes "holds st xdata (Array xs)" "holds st params (Array ps)" "4 \<le> length ps"
  defines "n \<equiv> length st"
  defines "X \<equiv> map (\<lambda>v. pi * v * ps ! 2 + ps ! 3) xs"
  defines "S2 \<equiv> map2 (*) (map sin X) (map sin X)"
  defines "DD \<equiv> map (\<lambda>s. 1.0 / (1 + ps ! 1 * ps ! 1 * s)) S2"
  defines "D2 \<equiv> map2 (*) DD DD"
  defines "P3 \<equiv> map2 (*)
                 (map2 (\<lambda>s c. - 2 * ps ! 0 * ps ! 1 * ps ! 1 * s * c) (map sin X) (map cos X)) D2"
  shows "\<exists>ext. terms_st xdata params st = (Inr (n + 4, n + 7, n + 8, n + 12), st @ ext)
           \<and> holds (st @ ext) (n + 4) (Array S2) \<and> holds (st @ ext) (n + 7) (Array DD)
           \<and> holds (st @ ext) (n + 8) (Array D2) \<and> holds (st @ ext) (n + 12) (Array P3)"
proof -
  from assms(3) have "ps \<noteq> []" by auto
  with assms(1-3) show ?thesis
    unfolding n_def X_def S2_def DD_def D2_def P3_def
    by (simp add: terms_st_def phase_st_def run holds_def nth_append elementwise)
qed

lemma basePartial_st_refines:
  assumes "holds st self (Instance sm)" "holds st xdata (Array xs)" "holds st params (Array ps)"
  shows "case basePartial_st self junk xdata params parlist st of
           (Inl e, st') \<Rightarrow> basePartial sm junk xs ps parlist = Inl e
         | (Inr a, st') \<Rightarrow>
             \<exists>m. holds st' a (Array2 m) \<and> basePartial sm junk xs ps parlist = Inr m"
proof -
  define np where "np = (case parlist of None \<Rightarrow> npbase sm | Some l \<Rightarrow> length l)"
  define pl where "pl = (case parlist of None \<Rightarrow> map int [0..<npmax sm] | Some l \<Rightarrow> l)"
  define P0 where "P0 = numpy_ndarray junk (length xs) np"
  let ?st0 = "st @ [Array2 P0]"
  have np: "(case parlist of
                None \<Rightarrow> then_do (instance_at self) (\<lambda>m. ret (npbase m))
              | Some l \<Rightarrow> ret (length l)) s = (Inr np, s)" if "holds s self (Instance sm)" for s
    using that by (simp add: np_def run holds_def split: option.splits)
  have pl: "(case parlist of
                None \<Rightarrow> then_do (instance_at self) (\<lambda>m. ret (map int [0..<npmax m]))
              | Some l \<Rightarrow> ret l) s = (Inr pl, s)" if "holds s self (Instance sm)" for s
    using that by (simp add: pl_def run holds_def split: option.splits)
  have st0: "holds ?st0 self (Instance sm)" "holds ?st0 xdata (Array xs)"
    "holds ?st0 params (Array ps)" "holds ?st0 (length st) (Array2 P0)"
    using assms by (simp_all add: holds_append) (simp add: holds_def)
  have start: "basePartial_st self junk xdata params parlist st =
      then_do (terms_st xdata params) (\<lambda>(s2, dd, d2, p3).
        then_do (case parlist of
                None \<Rightarrow> then_do (instance_at self) (\<lambda>m. ret (map int [0..<npmax m]))
              | Some l \<Rightarrow> ret l) (\<lambda>parlist.
        then_do (fill_st (parts_st xdata params s2 dd d2 p3) (length st) 0 parlist) (\<lambda>_.
          ret (length st)))) ?st0"
    using np [OF assms(1)] assms(2)
    by (simp add: basePartial_st_def then_do_def array_at_holds alloc_def P0_def)
  show ?thesis
  proof (cases "length ps < 4")
    case True
    from terms_st_IndexError [OF st0(2,3) True]
    have "fst (basePartial_st self junk xdata params parlist st) = Inl IndexError"
      unfolding start by (cases "terms_st xdata params ?st0") (simp add: then_do_def)
    moreover have "basePartial sm junk xs ps parlist = Inl IndexError"
      using True by (simp add: basePartial_def Let_def)
    ultimately show ?thesis
      by (cases "basePartial_st self junk xdata params parlist st") auto
  next
    case False
    then have len: "4 \<le> length ps" by simp
    define X where "X = map (\<lambda>v. pi * v * ps ! 2 + ps ! 3) xs"
    define S2 where "S2 = map2 (*) (map sin X) (map sin X)"
    define DD where "DD = map (\<lambda>s. 1.0 / (1 + ps ! 1 * ps ! 1 * s)) S2"
    define D2 where "D2 = map2 (*) DD DD"
    define P3 where "P3 = map2 (*)
                 (map2 (\<lambda>s c. - 2 * ps ! 0 * ps ! 1 * ps ! 1 * s * c) (map sin X) (map cos X)) D2"
    let ?n = "length ?st0"
    from terms_st_holds [OF st0(2,3) len] obtain ext where
      t: "terms_st xdata params ?st0 = (Inr (?n + 4, ?n + 7, ?n + 8, ?n + 12), ?st0 @ ext)"
        "holds (?st0 @ ext) (?n + 4) (Array S2)" "holds (?st0 @ ext) (?n + 7) (Array DD)"
        "holds (?st0 @ ext) (?n + 8) (Array D2)" "holds (?st0 @ ext) (?n + 12) (Array P3)"
      unfolding X_def S2_def DD_def D2_def P3_def by blast
    let ?st1 = "?st0 @ ext"
    have st1: "holds ?st1 self (Instance sm)" "holds ?st1 xdata (Array xs)"
      "holds ?st1 params (Array ps)" "holds ?st1 (length st) (Array2 P0)"
      using st0 by (simp_all only: holds_append)
    have sep: "length st \<notin> {xdata, params, ?n + 4, ?n + 7, ?n + 8, ?n + 12}"
      using assms(2,3) by (auto simp: holds_def)
    have lens: "length S2 = length D2" "length xs = length P3"
      by (simp_all add: S2_def DD_def D2_def P3_def X_def)
    have parts: "parts_of xs ps = [0 \<mapsto> DD,
                     1 \<mapsto> map2 (\<lambda>s d. - 2 * ps ! 0 * ps ! 1 * s * d) S2 D2,
                     2 \<mapsto> map2 (\<lambda>v p. pi * v * p) xs P3,
                     3 \<mapsto> P3]"
      unfolding parts_of_def Let_def X_def S2_def DD_def D2_def P3_def ..
    have pure: "basePartial sm junk xs ps parlist = fill (parts_of xs ps) 0 pl P0"
      using len by (simp add: basePartial_def Let_def P0_def np_def pl_def)
    have run: "basePartial_st self junk xdata params parlist st =
        then_do (fill_st (parts_st xdata params (?n + 4) (?n + 7) (?n + 8) (?n + 12)) (length st) 0 pl)
          (\<lambda>_. ret (length st)) ?st1"
      unfolding start using t(1) pl [OF st1(1)] by (simp add: then_do_def)
    from fill_st_refines [OF st1(4) st1(2) st1(3) t(2) t(3) t(4) t(5) sep len lens, of 0 pl]
    show ?thesis
      unfolding run pure parts
      by (cases "fill_st (parts_st xdata params (?n + 4) (?n + 7) (?n + 8) (?n + 12)) (length st) 0 pl ?st1")
        (auto simp: then_do_def ret_def split: sum.splits)
  qed
qed


text \<open>
  C10. Whatever the store and the arguments, and whether the call returns or raises:
  after \<open>baseResult\<close>, \<open>baseDerivative\<close> and \<open>basePartial\<close> every object that was in the
  store before the call (the parameters, the samples, the instance, anything else) is
  unchanged, and a returned array is a new object.
\<close>

theorem operations_keep_store:
  "(case baseResult_st self xdata params st of (r, st') \<Rightarrow>
      take (length st) st' = st \<and> (\<forall>a. r = Inr a \<longrightarrow> length st \<le> a))
   \<and> (case baseDerivative_st self xdata params st of (r, st') \<Rightarrow>
      take (length st) st' = st \<and> (\<forall>a. r = Inr a \<longrightarrow> length st \<le> a))
   \<and> (case basePartial_st self junk xdata params parlist st of (r, st') \<Rightarrow>
      take (length st) st' = st \<and> (\<forall>a. r = Inr a \<longrightarrow> length st \<le> a))"
  by (intro conjI keeps_frame keeps_baseResult_st keeps_baseDerivative_st keeps_basePartial_st)

theorem operations_keep_store_witness:
  "(case baseResult_st 0 1 2
           [Instance \<lparr>npbase = 4, npmax = 4, xUnit = Dimensionless, yUnit = Dimensionless\<rparr>,
            Array [0, 1/2], Array [1, 30, 1, 0]] of
      (r, st') \<Rightarrow> r = Inr 10 \<and> st' ! 10 = Array [1, 1 / 901]
        \<and> take 3 st' =
            [Instance \<lparr>npbase = 4, npmax = 4, xUnit = Dimensionless, yUnit = Dimensionless\<rparr>,
             Array [0, 1/2], Array [1, 30, 1, 0]])
   \<and> (case baseDerivative_st 0 1 2
           [Instance \<lparr>npbase = 4, npmax = 4, xUnit = Dimensionless, yUnit = Dimensionless\<rparr>,
            Array [0, 1/2], Array [1, 30, 1, 0]] of
      (r, st') \<Rightarrow> r = Inr 13 \<and> st' ! 13 = Array [0, 0]
        \<and> take 3 st' =
            [Instance \<lparr>npbase = 4, npmax = 4, xUnit = Dimensionless, yUnit = Dimensionless\<rparr>,
             Array [0, 1/2], Array [1, 30, 1, 0]])
   \<and> (case basePartial_st 0 (\<lambda>i j. 0) 1 2 (Some [3, 0])
           [Instance \<lparr>npbase = 4, npmax = 4, xUnit = Dimensionless, yUnit = Dimensionless\<rparr>,
            Array [0, 1/2], Array [1, 30, 1, 0]] of
      (r, st') \<Rightarrow> r = Inr 3
        \<and> st' ! 3 = Array2 \<lparr>nrows = 2, ncols = 2, cells = [[0, 1], [0, 1 / 901]]\<rparr>
        \<and> take 3 st' =
            [Instance \<lparr>npbase = 4, npmax = 4, xUnit = Dimensionless, yUnit = Dimensionless\<rparr>,
             Array [0, 1/2], Array [1, 30, 1, 0]])"
proof -
  let ?st = "[Instance \<lparr>npbase = 4, npmax = 4, xUnit = Dimensionless, yUnit = Dimensionless\<rparr>,
             Array [0, 1/2], Array [1, 30, 1, 0]]"
  have ev: "fst (baseResult_st 0 1 2 ?st) = Inr 10"
      "snd (baseResult_st 0 1 2 ?st) ! 10 = Array [1, 1 / 901]"
      "fst (baseDerivative_st 0 1 2 ?st) = Inr 13"
      "snd (baseDerivative_st 0 1 2 ?st) ! 13 = Array [0, 0]"
      "fst (basePartial_st 0 (\<lambda>i j. 0) 1 2 (Some [3, 0]) ?st) = Inr 3"
      "snd (basePartial_st 0 (\<lambda>i j. 0) 1 2 (Some [3, 0]) ?st) ! 3
         = Array2 \<lparr>nrows = 2, ncols = 2, cells = [[0, 1], [0, 1 / 901]]\<rparr>"
    by (simp_all add: baseResult_st_def baseDerivative_st_def basePartial_st_def terms_st_def
        phase_st_def parts_st_def part1_st_def part2_st_def setitem_column_def set_column_def
        numpy_ndarray_def run eval_nat_numeral)
  show ?thesis
    using operations_keep_store [where self = 0 and xdata = 1 and params = 2 and st = ?st
        and junk = "\<lambda>i j. 0" and parlist = "Some [3, 0]"] ev
    by (simp add: split_beta numeral_3_eq_3)
qed

subsection \<open>Units\<close>

text \<open>
  C9. The unit of parameter 0 is the unit of the output, of parameter 1 the
  dimensionless unit whatever the units of the model, of parameter 2 radians per unit
  of the input, of parameter 3 radians, and of any other index the unit of the output.
\<close>

theorem baseParameterUnit_cases:
  "baseParameterUnit self 0 = yUnit self
   \<and> baseParameterUnit self 1 = Dimensionless
   \<and> baseParameterUnit self' 1 = baseParameterUnit self 1
   \<and> baseParameterUnit self 2 = Per Radian (xUnit self)
   \<and> baseParameterUnit self 3 = Radian
   \<and> (k \<notin> {0, 1, 2, 3} \<longrightarrow> baseParameterUnit self k = yUnit self)"
  by (simp add: baseParameterUnit_def Unit_str_def Unit_of_def si_rad_def)

theorem baseParameterUnit_cases_witness:
  "baseParameterUnit \<lparr>npbase = 4, npmax = 4, xUnit = Named ''1/cm'', yUnit = Named ''Jy''\<rparr> 7
     = Named ''Jy''
   \<and> baseParameterUnit \<lparr>npbase = 4, npmax = 4, xUnit = Named ''1/cm'', yUnit = Named ''Jy''\<rparr> 2
     = Per Radian (Named ''1/cm'')"
  using baseParameterUnit_cases
    [of "\<lparr>npbase = 4, npmax = 4, xUnit = Named ''1/cm'', yUnit = Named ''Jy''\<rparr>" _ 7]
  by simp

end
